theory Spec2Isabelle
  imports Main "HOL-Library.Word"
begin

section \<open>The mirroring example program of libmtp (examples/files.c)\<close>

text \<open>
  The program walks the folder tree of an MTP device and recreates it in the local
  working directory. Its own state is a doubly linked list of path segments
  (\<open>path_stack_first\<close>, \<open>path_stack_last\<close>) and the counter \<open>fails\<close>; everything
  else it does goes through the C library and libmtp. The embedding keeps the linked list
  as heap cells with pointers, writes every call that leaves the program (and every line
  printed) to a trace, and takes what the outside answers from a record of functions on a
  state \<open>'e\<close> of the outside world.
\<close>

subsection \<open>Data\<close>

type_synonym addr = nat

text \<open>
  \<open>struct path_segment\<close>. A pointer is \<open>None\<close> (\<open>NULL\<close>) or \<open>Some\<close> address. The
  field \<open>next\<close> of the source is \<open>nxt\<close> here. \<open>segment\<close> points to a private copy
  made by \<open>strdup\<close>, so the cell holds the string itself: a \<open>string\<close> is the content
  of a C string, the bytes before its terminator.
\<close>

record path_segment =
  segment :: string
  prev :: "addr option"
  nxt :: "addr option"

definition NUL :: char where
  "NUL = CHR 0x00"

text \<open>The content of a C string holds no terminator.\<close>

definition cstring :: "string \<Rightarrow> bool" where
  "cstring s = (NUL \<notin> set s)"

text \<open>Reading a byte array as a C string stops at the first terminator.\<close>

definition c_str :: "char list \<Rightarrow> string" where
  "c_str bytes = takeWhile (\<lambda>c. c \<noteq> NUL) bytes"

text \<open>
  Arguments of \<open>printf\<close>: a string, \<open>NULL\<close> passed for a string, an integer, and a
  byte array without terminator passed for \<open>%s\<close> (the read runs past its end).
\<close>

datatype arg = S string | SNull | I int | Unterminated "char list"

definition str_arg :: "string option \<Rightarrow> arg" where
  "str_arg p = (case p of None \<Rightarrow> SNull | Some s \<Rightarrow> S s)"

definition buf_arg :: "char list \<Rightarrow> arg" where
  "buf_arg bytes = (if NUL \<in> set bytes then S (c_str bytes) else Unterminated bytes)"

text \<open>
  The trace: lines printed (format string of the source and its arguments), calls to the
  C library and to libmtp, and the entries of \<open>push_segment\<close> and \<open>pop_segment\<close>.
\<close>

datatype event =
    Printf string "arg list"
  | Ev_push_segment "string option"
  | Ev_pop_segment
  | Ev_mkdir "string option"
  | Ev_chdir "string option"
  | Ev_stat string
  | Ev_getcwd
  | Ev_Get_Files_And_Folders "32 word" "32 word"
  | Ev_Dump_Errorstack
  | Ev_Clear_Errorstack
  | Ev_Get_File_To_File "32 word" "string option"
  | Ev_destroy_file_t "32 word"

text \<open>\<open>LIBMTP_filetype_t\<close>: the traversal only tells folders from everything else.\<close>

datatype LIBMTP_filetype = LIBMTP_FILETYPE_FOLDER | LIBMTP_FILETYPE_OTHER nat

text \<open>
  \<open>LIBMTP_file_t\<close>, without its \<open>next\<close> pointer: a listing is the list of its
  entries, and \<open>NULL\<close> is the empty list.
\<close>

record LIBMTP_file =
  item_id :: "32 word"
  parent_id :: "32 word"
  storage_id :: "32 word"
  filename :: "string option"
  filesize :: "64 word"
  filetype :: LIBMTP_filetype

text \<open>
  The state of the program: the heap cells of the path stack (\<open>brk\<close> is the next address
  \<open>malloc\<close> hands out), the two list pointers, the static counter of
  \<open>exit_if_too_many_fails\<close>, the trace, and the state of the outside world.
\<close>

record 'e world =
  heap :: "addr \<Rightarrow> path_segment option"
  brk :: addr
  path_stack_first :: "addr option"
  path_stack_last :: "addr option"
  fails :: "32 word"
  out :: "event list"
  env :: 'e

text \<open>
  What the program does not contain: \<open>PATH_MAX\<close> of \<open>limits.h\<close>, \<open>errno\<close>, the
  system calls and the libmtp calls on the open device. A system call returns its C
  result and the new outside state; \<open>stat\<close> also returns \<open>st_size\<close>. A call of
  \<open>fprintf\<close> may set \<open>errno\<close>: \<open>sys_fprintf\<close> is what it does to the outside state.
  The program reads \<open>errno\<close> behind a print, with no system call in between, in one
  place, the \<open>exit(errno)\<close> of \<open>should_copy\<close>, and \<open>sys_fprintf\<close> is applied there.
\<close>

record 'e system =
  PATH_MAX :: nat
  sys_errno :: "'e \<Rightarrow> int"
  sys_fprintf :: "'e \<Rightarrow> 'e"
  sys_mkdir :: "string option \<Rightarrow> 'e \<Rightarrow> int \<times> 'e"
  sys_chdir :: "string option \<Rightarrow> 'e \<Rightarrow> int \<times> 'e"
  sys_stat :: "string \<Rightarrow> 'e \<Rightarrow> int \<times> 64 word \<times> 'e"
  sys_getcwd :: "'e \<Rightarrow> string \<times> 'e"
  Get_Files_And_Folders :: "32 word \<Rightarrow> 32 word \<Rightarrow> 'e \<Rightarrow> LIBMTP_file list \<times> 'e"
  Dump_Errorstack :: "'e \<Rightarrow> 'e"
  Clear_Errorstack :: "'e \<Rightarrow> 'e"
  Get_File_To_File :: "32 word \<Rightarrow> string option \<Rightarrow> 'e \<Rightarrow> int \<times> 'e"
  Get_Filetype_Description :: "LIBMTP_filetype \<Rightarrow> string"

definition ENOENT :: int where
  "ENOENT = 2"

definition EEXIST :: int where
  "EEXIST = 17"

text \<open>
  How a call ends: it returns, or the process ends in \<open>exit\<close> with the given argument,
  or the call runs into undefined behaviour of C: a \<open>NULL\<close> pointer is dereferenced, a
  byte is stored outside the buffer (at the given index), or a pointer into a freed or
  never allocated cell is followed. The state at that moment is kept. A call that does
  not end at all is \<open>None\<close>.
\<close>

datatype error = Exit int | NullDeref | OutOfBounds nat | InvalidPointer addr

type_synonym ('a, 'e) result = "(error \<times> 'e world + 'a \<times> 'e world) option"

definition emit :: "event \<Rightarrow> 'e world \<Rightarrow> 'e world" where
  "emit ev w = w\<lparr>out := out w @ [ev]\<rparr>"

text \<open>The status of the ended process, as its parent sees it: the low eight bits.\<close>

definition exit_status :: "int \<Rightarrow> int" where
  "exit_status n = n mod 256"

subsection \<open>The path stack\<close>

text \<open>
  \<open>push_segment\<close>: a new cell behind the last one. \<open>malloc\<close> hands out the address
  \<open>brk\<close>; \<open>strdup(NULL)\<close> dereferences \<open>NULL\<close>.
\<close>

definition push_segment :: "string option \<Rightarrow> 'e world \<Rightarrow> (unit, 'e) result" where
  "push_segment name w0 =
    (let w = emit (Ev_push_segment name) w0;
         seg = brk w
     in case name of
          None \<Rightarrow> Some (Inl (NullDeref, w))
        | Some s \<Rightarrow>
            let cell = \<lparr>segment = s, prev = path_stack_last w, nxt = None\<rparr>;
                w1 = w\<lparr>heap := (heap w)(seg \<mapsto> cell), brk := Suc seg,
                       path_stack_last := Some seg\<rparr>
            in if path_stack_first w1 = None
               then Some (Inr ((), w1\<lparr>path_stack_first := Some seg\<rparr>))
               else (case prev cell of
                       None \<Rightarrow> Some (Inl (NullDeref, w1))
                     | Some p \<Rightarrow>
                         (case heap w1 p of
                            None \<Rightarrow> Some (Inl (InvalidPointer p, w1))
                          | Some pc \<Rightarrow>
                              Some (Inr ((), w1\<lparr>heap := (heap w1)(p \<mapsto> pc\<lparr>nxt := Some seg\<rparr>)\<rparr>)))))"

text \<open>
  \<open>pop_segment\<close>: the source tests nothing before \<open>path_stack_last->prev\<close>.
\<close>

definition pop_segment :: "'e world \<Rightarrow> (unit, 'e) result" where
  "pop_segment w0 =
    (let w = emit Ev_pop_segment w0;
         w1 = (if path_stack_first w = path_stack_last w
               then w\<lparr>path_stack_first := None\<rparr> else w);
         seg_to_free = path_stack_last w1
     in case seg_to_free of
          None \<Rightarrow> Some (Inl (NullDeref, w1))
        | Some a \<Rightarrow>
            (case heap w1 a of
               None \<Rightarrow> Some (Inl (InvalidPointer a, w1))
             | Some cell \<Rightarrow>
                 let w2 = w1\<lparr>path_stack_last := prev cell\<rparr>
                 in (case path_stack_last w2 of
                       None \<Rightarrow> Some (Inr ((), w2\<lparr>heap := (heap w2)(a := None)\<rparr>))
                     | Some p \<Rightarrow>
                         (case heap w2 p of
                            None \<Rightarrow> Some (Inl (InvalidPointer p, w2))
                          | Some pc \<Rightarrow>
                              let w3 = w2\<lparr>heap := (heap w2)(p \<mapsto> pc\<lparr>nxt := None\<rparr>)\<rparr>
                              in Some (Inr ((), w3\<lparr>heap := (heap w3)(a := None)\<rparr>))))))"

text \<open>The loop of \<open>current_path_len\<close>, from the cell \<open>seg\<close> with the count so far.\<close>

partial_function (option) count_segments ::
  "(addr \<Rightarrow> path_segment option) \<Rightarrow> addr option \<Rightarrow> int \<Rightarrow> (error + int) option" where
  "count_segments h seg ret =
    (case seg of
       None \<Rightarrow> Some (Inr ret)
     | Some a \<Rightarrow>
         (case h a of
            None \<Rightarrow> Some (Inl (InvalidPointer a))
          | Some cell \<Rightarrow> count_segments h (nxt cell) (ret + 1)))"

declare count_segments.simps [code]

definition current_path_len :: "'e world \<Rightarrow> (int, 'e) result" where
  "current_path_len w =
    (case count_segments (heap w) (path_stack_first w) 0 of
       None \<Rightarrow> None
     | Some (Inl e) \<Rightarrow> Some (Inl (e, w))
     | Some (Inr n) \<Rightarrow> Some (Inr (n, w)))"

text \<open>A store through a pointer into the buffer: \<open>None\<close> outside of it.\<close>

definition store :: "nat \<Rightarrow> char \<Rightarrow> char list \<Rightarrow> char list option" where
  "store i c bytes = (if i < length bytes then Some (bytes[i := c]) else None)"

text \<open>
  The inner loop of \<open>current_path\<close>, \<open>while(*s && b < last_char) *b++ = *s++\<close>:
  \<open>s\<close> is what is left of the segment, \<open>b\<close> the index \<open>b - buf\<close>.
\<close>

fun copy_segment :: "nat \<Rightarrow> string \<Rightarrow> char list \<times> nat \<Rightarrow> error + char list \<times> nat" where
  "copy_segment last_char [] (bytes, b) = Inr (bytes, b)"
| "copy_segment last_char (c # s) (bytes, b) =
    (if b < last_char
     then (case store b c bytes of
             None \<Rightarrow> Inl (OutOfBounds b)
           | Some bytes' \<Rightarrow> copy_segment last_char s (bytes', Suc b))
     else Inr (bytes, b))"

text \<open>
  The outer loop of \<open>current_path\<close> from the cell \<open>seg\<close>: copy the segment, store the
  separator without any test, print the buffer.
\<close>

partial_function (option) path_loop ::
  "nat \<Rightarrow> addr option \<Rightarrow> char list \<times> nat \<Rightarrow> 'e world \<Rightarrow> (char list \<times> nat, 'e) result" where
  "path_loop last_char seg bb w =
    (case seg of
       None \<Rightarrow> Some (Inr (bb, w))
     | Some a \<Rightarrow>
         (case heap w a of
            None \<Rightarrow> Some (Inl (InvalidPointer a, w))
          | Some cell \<Rightarrow>
              (case copy_segment last_char (segment cell) bb of
                 Inl e \<Rightarrow> Some (Inl (e, w))
               | Inr (bytes, b) \<Rightarrow>
                   (case store b CHR ''/'' bytes of
                      None \<Rightarrow> Some (Inl (OutOfBounds b, w))
                    | Some bytes' \<Rightarrow>
                        path_loop last_char (nxt cell) (bytes', Suc b)
                          (emit (Printf ''BUF %s segment %s\<newline>''
                                   [buf_arg bytes', S (segment cell)]) w)))))"

declare path_loop.simps [code]

text \<open>
  \<open>current_path\<close>: a zeroed buffer of \<open>PATH_MAX + 1\<close> bytes, the loop, the terminator
  at \<open>b\<close> or at the last byte. The callers read the result as a C string only.
\<close>

definition current_path :: "'e system \<Rightarrow> 'e world \<Rightarrow> (string, 'e) result" where
  "current_path sys w =
    (let max_write = PATH_MAX sys + 1;
         buf = replicate max_write NUL;
         last_char = PATH_MAX sys
     in case current_path_len w of
          None \<Rightarrow> None
        | Some (Inl x) \<Rightarrow> Some (Inl x)
        | Some (Inr (n, w1)) \<Rightarrow>
            (case path_loop last_char (path_stack_first w1) (buf, 0)
                    (emit (Printf ''PATHLEN %i\<newline>'' [I n]) w1) of
               None \<Rightarrow> None
             | Some (Inl x) \<Rightarrow> Some (Inl x)
             | Some (Inr ((bytes, b), w2)) \<Rightarrow>
                 (let b' = (if b < last_char then b else last_char)
                  in case store b' NUL bytes of
                       None \<Rightarrow> Some (Inl (OutOfBounds b', w2))
                     | Some bytes' \<Rightarrow> Some (Inr (c_str bytes', w2)))))"

subsection \<open>The traversal\<close>

text \<open>Sequencing: what follows a call runs only when the call returns.\<close>

definition then_do :: "('a, 'e) result \<Rightarrow> ('a \<Rightarrow> 'e world \<Rightarrow> ('b, 'e) result) \<Rightarrow> ('b, 'e) result" where
  "then_do m f =
    (case m of
       None \<Rightarrow> None
     | Some (Inl x) \<Rightarrow> Some (Inl x)
     | Some (Inr (a, w)) \<Rightarrow> f a w)"

text \<open>
  \<open>should_copy\<close>. \<open>full_path\<close> has room for both copies and the terminator, and is
  only printed. \<open>stat\<close> gets the bare file name. \<open>st_size\<close> is converted to the
  unsigned type of \<open>filesize\<close> for the comparison, which keeps its 64 bits. The
  report of a failed \<open>stat\<close> prints the \<open>errno\<close> of \<open>stat\<close>; \<open>exit\<close> gets \<open>errno\<close> as
  it is after that \<open>fprintf\<close>.
\<close>

definition should_copy :: "'e system \<Rightarrow> LIBMTP_file \<Rightarrow> 'e world \<Rightarrow> (int, 'e) result" where
  "should_copy sys file w =
    then_do (current_path sys w) (\<lambda>path w1.
      case filename file of
        None \<Rightarrow> Some (Inl (NullDeref, w1))
      | Some fname \<Rightarrow>
          (let full_path = path @ fname;
               (r, st_size, e1) = sys_stat sys fname (env w1);
               w2 = (emit (Ev_stat fname) w1)\<lparr>env := e1\<rparr>
           in if r = -1
              then (if sys_errno sys e1 = ENOENT
                    then Some (Inr (1, emit (Printf ''STAT(%s)->ENOENT\<newline>'' [S fname]) w2))
                    else (let e2 = sys_fprintf sys e1
                          in Some (Inl (Exit (sys_errno sys e2),
                               (emit (Printf ''couldn't stat %s (%s) and errno is not ENOENT: %i\<newline>''
                                        [S fname, S full_path, I (sys_errno sys e1)]) w2)
                               \<lparr>env := e2\<rparr>))))
              else Some (Inr (if st_size \<noteq> filesize file then 1 else 0,
                     emit (Printf ''compare: %s (%s) : %li ==  %lu\<newline>''
                             [S fname, S full_path, I (sint st_size), I (uint (filesize file))])
                       w2))))"

definition dump_fileinfo :: "'e system \<Rightarrow> LIBMTP_file \<Rightarrow> 'e world \<Rightarrow> 'e world" where
  "dump_fileinfo sys file w =
    (let w1 = emit (Printf ''File ID: %u\<newline>'' [I (uint (item_id file))]) w;
         w2 = (case filename file of
                 None \<Rightarrow> w1
               | Some fname \<Rightarrow> emit (Printf ''   Filename: %s\<newline>'' [S fname]) w1);
         w3 = (if filesize file = 0xFFFFFFFF
               then emit (Printf ''   None. (abstract file, size = -1)\<newline>'' []) w2
               else emit (Printf ''   File size %llu (0x%016llX) bytes\<newline>''
                            [I (uint (filesize file)), I (uint (filesize file))]) w2);
         w4 = emit (Printf ''   Parent ID: %u\<newline>'' [I (uint (parent_id file))]) w3;
         w5 = emit (Printf ''   Storage ID: 0x%08X\<newline>'' [I (uint (storage_id file))]) w4
     in emit (Printf ''   Filetype: %s\<newline>''
                [S (Get_Filetype_Description sys (filetype file))]) w5)"

definition pushdir :: "'e system \<Rightarrow> string option \<Rightarrow> 'e world \<Rightarrow> (unit, 'e) result" where
  "pushdir sys dirname w =
    (let (r, e1) = sys_mkdir sys dirname (env w);
         w1 = (emit (Ev_mkdir dirname) w)\<lparr>env := e1\<rparr>
     in if r \<noteq> 0 \<and> sys_errno sys e1 \<noteq> EEXIST
        then Some (Inl (Exit 1,
               emit (Printf ''couldn't mkdir %s, errno: %i\<newline>''
                       [str_arg dirname, I (sys_errno sys e1)]) w1))
        else (let (r', e2) = sys_chdir sys dirname (env w1);
                  w2 = (emit (Ev_chdir dirname) w1)\<lparr>env := e2\<rparr>
              in if r' \<noteq> 0
                 then Some (Inl (Exit 1,
                        emit (Printf ''couldn't chdir %s, errno: %i\<newline>''
                                [str_arg dirname, I (sys_errno sys e2)]) w2))
                 else push_segment dirname w2))"

definition popdir :: "'e system \<Rightarrow> 'e world \<Rightarrow> (unit, 'e) result" where
  "popdir sys w =
    (let (r, e1) = sys_chdir sys (Some ''..'') (env w);
         w1 = (emit (Ev_chdir (Some ''..'')) w)\<lparr>env := e1\<rparr>
     in if r \<noteq> 0
        then Some (Inl (Exit 1,
               emit (Printf ''wow, couldn't chdir(\"..\") errno: %i\<newline>''
                       [I (sys_errno sys e1)]) w1))
        else pop_segment w1)"

text \<open>\<open>exit_if_too_many_fails\<close>; \<open>fails\<close> is an \<open>int\<close>, compared as a signed number.\<close>

definition exit_if_too_many_fails :: "'e world \<Rightarrow> (unit, 'e) result" where
  "exit_if_too_many_fails w =
    (let w1 = w\<lparr>fails := fails w + 1\<rparr>;
         w2 = emit (Printf ''total fails so far: %i'' [I (sint (fails w1))]) w1
     in if 10 <s fails w2 then Some (Inl (Exit 1, w2)) else Some (Inr ((), w2)))"

text \<open>The branch of the loop of \<open>dump_files\<close> for an entry that is not a folder.\<close>

definition dump_files_file :: "'e system \<Rightarrow> LIBMTP_file \<Rightarrow> 'e world \<Rightarrow> (unit, 'e) result" where
  "dump_files_file sys file w =
    then_do (should_copy sys file (dump_fileinfo sys file w)) (\<lambda>will_copy w1.
      let w2 = emit (Printf ''should_copy(%s):%i\<newline>''
                       [str_arg (filename file), I will_copy]) w1
      in if will_copy \<noteq> 0
         then (let (r, e1) = Get_File_To_File sys (item_id file) (filename file) (env w2);
                   w3 = (emit (Ev_Get_File_To_File (item_id file) (filename file)) w2)\<lparr>env := e1\<rparr>
               in if r \<noteq> 0
                  then (let (wd, e2) = sys_getcwd sys (env w3);
                            w4 = (emit Ev_getcwd w3)\<lparr>env := e2\<rparr>
                        in exit_if_too_many_fails
                             (emit (Printf ''couldn't write %s in dir %s, errno:%i\<newline>''
                                      [str_arg (filename file), S wd, I (sys_errno sys e2)]) w4))
                  else Some (Inr ((), w3)))
         else Some (Inr ((), w2)))"

text \<open>
  \<open>dump_files\<close> and its loop over the listing. The device decides how deep the
  recursion goes, so the first argument bounds the depth of nested calls; \<open>None\<close>
  when the bound is reached. \<open>leaf\<close> is an \<open>int\<close> in the source that only carries the
  32 bits of an item id to the listing call.
\<close>

fun dump_files :: "nat \<Rightarrow> 'e system \<Rightarrow> 32 word \<Rightarrow> 32 word \<Rightarrow> 'e world \<Rightarrow> (unit, 'e) result"
  and dump_files_loop ::
    "nat \<Rightarrow> 'e system \<Rightarrow> 32 word \<Rightarrow> LIBMTP_file list \<Rightarrow> 'e world \<Rightarrow> (unit, 'e) result" where
  "dump_files 0 sys storageid leaf w = None"
| "dump_files (Suc n) sys storageid leaf w =
    (let (files, e1) = Get_Files_And_Folders sys storageid leaf (env w);
         w1 = (emit (Ev_Get_Files_And_Folders storageid leaf) w)\<lparr>env := e1\<rparr>
     in if files = []
        then (let w2 = (emit Ev_Dump_Errorstack w1)\<lparr>env := Dump_Errorstack sys (env w1)\<rparr>;
                  w3 = (emit Ev_Clear_Errorstack w2)\<lparr>env := Clear_Errorstack sys (env w2)\<rparr>
              in Some (Inr ((), w3)))
        else dump_files_loop n sys storageid files w1)"
| "dump_files_loop n sys storageid [] w = Some (Inr ((), w))"
| "dump_files_loop n sys storageid (file # rest) w =
    then_do
      (if filetype file = LIBMTP_FILETYPE_FOLDER
       then then_do
              (pushdir sys (filename file)
                 (emit (Printf ''ENTER DIRECTORY:%s\<newline>'' [str_arg (filename file)]) w))
              (\<lambda>_ w1.
            then_do (current_path sys w1) (\<lambda>s w2.
            then_do
              (dump_files n sys storageid (item_id file)
                 (emit (Printf ''CURRENT_PATH after entering %s is %s\<newline>''
                          [str_arg (filename file), S s]) w2))
              (\<lambda>_ w3.
            then_do
              (popdir sys
                 (emit (Printf ''LEAVE DIRECTORY:%s\<newline>'' [str_arg (filename file)]) w3))
              (\<lambda>_ w4.
            then_do (current_path sys w4) (\<lambda>s' w5.
              Some (Inr ((), emit (Printf ''CURRENT_PATH after leaving %s is %s\<newline>''
                                     [str_arg (filename file), S s']) w5)))))))
       else dump_files_file sys file w)
      (\<lambda>_ w'. dump_files_loop n sys storageid rest (emit (Ev_destroy_file_t (item_id file)) w'))"

text \<open>
  The branch of the loop of \<open>dump_files\<close> for a folder entry, as it stands in
  \<open>dump_files_loop\<close> above.
\<close>

definition dump_files_folder ::
  "nat \<Rightarrow> 'e system \<Rightarrow> 32 word \<Rightarrow> LIBMTP_file \<Rightarrow> 'e world \<Rightarrow> (unit, 'e) result" where
  "dump_files_folder n sys storageid file w =
    then_do
      (pushdir sys (filename file)
         (emit (Printf ''ENTER DIRECTORY:%s\<newline>'' [str_arg (filename file)]) w))
      (\<lambda>_ w1.
    then_do (current_path sys w1) (\<lambda>s w2.
    then_do
      (dump_files n sys storageid (item_id file)
         (emit (Printf ''CURRENT_PATH after entering %s is %s\<newline>''
                  [str_arg (filename file), S s]) w2))
      (\<lambda>_ w3.
    then_do
      (popdir sys
         (emit (Printf ''LEAVE DIRECTORY:%s\<newline>'' [str_arg (filename file)]) w3))
      (\<lambda>_ w4.
    then_do (current_path sys w4) (\<lambda>s' w5.
      Some (Inr ((), emit (Printf ''CURRENT_PATH after leaving %s is %s\<newline>''
                             [str_arg (filename file), S s']) w5)))))))"

text \<open>
  The calls of a run. \<open>Visit\<close> is a call of \<open>dump_files\<close>, \<open>Loop\<close> is its \<open>while\<close> loop at
  the entries still to come. \<open>calls\<close> is one step of the source from a call to what it
  does next: \<open>dump_files\<close> enters its loop when the listing is not \<open>NULL\<close>; the loop goes
  on to the next entry when the entry before has been dealt with; for a folder the loop
  calls \<open>dump_files\<close> again, after \<open>pushdir\<close> and \<open>current_path\<close> have returned.
\<close>

datatype 'e call =
    Visit nat "32 word" "32 word" "'e world"
  | Loop nat "32 word" "LIBMTP_file list" "'e world"

fun outcome :: "'e system \<Rightarrow> 'e call \<Rightarrow> (unit, 'e) result" where
  "outcome sys (Visit n storageid leaf w) = dump_files n sys storageid leaf w"
| "outcome sys (Loop n storageid files w) = dump_files_loop n sys storageid files w"

inductive calls :: "'e system \<Rightarrow> 'e call \<Rightarrow> 'e call \<Rightarrow> bool" for sys :: "'e system" where
  listing:
    "Get_Files_And_Folders sys storageid leaf (env w) = (files, e1) \<Longrightarrow> files \<noteq> [] \<Longrightarrow>
     calls sys (Visit (Suc n) storageid leaf w)
       (Loop n storageid files ((emit (Ev_Get_Files_And_Folders storageid leaf) w)\<lparr>env := e1\<rparr>))"
| next_entry:
    "dump_files_loop n sys storageid [file] w = Some (Inr ((), w')) \<Longrightarrow>
     calls sys (Loop n storageid (file # rest) w) (Loop n storageid rest w')"
| descend:
    "filetype file = LIBMTP_FILETYPE_FOLDER \<Longrightarrow>
     pushdir sys (filename file)
       (emit (Printf ''ENTER DIRECTORY:%s\<newline>'' [str_arg (filename file)]) w) =
       Some (Inr ((), w1)) \<Longrightarrow>
     current_path sys w1 = Some (Inr (s, w2)) \<Longrightarrow>
     calls sys (Loop n storageid (file # rest) w)
       (Visit n storageid (item_id file)
          (emit (Printf ''CURRENT_PATH after entering %s is %s\<newline>''
                   [str_arg (filename file), S s]) w2))"

text \<open>
  The state at the start of \<open>main\<close>: both list pointers \<open>NULL\<close>, \<open>fails\<close> zero,
  nothing allocated, nothing printed.
\<close>

definition initial_world :: "'e \<Rightarrow> 'e world" where
  "initial_world e =
    \<lparr>heap = (\<lambda>_. None), brk = 0, path_stack_first = None, path_stack_last = None,
     fails = 0, out = [], env = e\<rparr>"

text \<open>The state in which a call ended, returned or not.\<close>

definition final_world :: "('a, 'e) result \<Rightarrow> 'e world option" where
  "final_world r =
    (case r of
       None \<Rightarrow> None
     | Some (Inl (x, w)) \<Rightarrow> Some w
     | Some (Inr (a, w)) \<Rightarrow> Some w)"

text \<open>\<open>n\<close> calls of \<open>exit_if_too_many_fails\<close> in a row.\<close>

fun record_failures :: "nat \<Rightarrow> 'e world \<Rightarrow> (unit, 'e) result" where
  "record_failures 0 w = Some (Inr ((), w))"
| "record_failures (Suc n) w = then_do (record_failures n w) (\<lambda>_. exit_if_too_many_fails)"

subsection \<open>Reading the outcome of a call\<close>

definition returned :: "('a, 'e) result \<Rightarrow> 'a option" where
  "returned r =
    (case r of
       None \<Rightarrow> None
     | Some (Inl x) \<Rightarrow> None
     | Some (Inr (a, w)) \<Rightarrow> Some a)"

definition failure :: "('a, 'e) result \<Rightarrow> error option" where
  "failure r =
    (case r of
       None \<Rightarrow> None
     | Some (Inl (x, w)) \<Rightarrow> Some x
     | Some (Inr y) \<Rightarrow> None)"

subsection \<open>The path stack as a list of segments\<close>

text \<open>
  The cells at the addresses \<open>as\<close> hold the segments \<open>ss\<close> and are linked in this
  order; \<open>p\<close> is the \<open>prev\<close> pointer of the first cell, and the last cell has no
  successor.
\<close>

definition ptr :: "addr list \<Rightarrow> addr option" where
  "ptr as = (case as of [] \<Rightarrow> None | a # _ \<Rightarrow> Some a)"

fun chain :: "(addr \<Rightarrow> path_segment option) \<Rightarrow> addr option \<Rightarrow> addr list \<Rightarrow> string list \<Rightarrow> bool" where
  "chain h p [] [] = True"
| "chain h p (a # as) (s # ss) =
    (h a = Some \<lparr>segment = s, prev = p, nxt = ptr as\<rparr> \<and> chain h (Some a) as ss)"
| "chain h p [] (s # ss) = False"
| "chain h p (a # as) [] = False"

text \<open>
  The state holds the stack of segments \<open>ss\<close> in the cells \<open>as\<close>: the cells are linked,
  all different and allocated, \<open>path_stack_first\<close> points to the first and
  \<open>path_stack_last\<close> to the last of them.
\<close>

definition path_stack :: "'e world \<Rightarrow> addr list \<Rightarrow> string list \<Rightarrow> bool" where
  "path_stack w as ss =
    (chain (heap w) None as ss \<and> distinct as \<and> (\<forall>a \<in> set as. a < brk w) \<and>
     path_stack_first w = ptr as \<and> path_stack_last w = ptr (rev as))"

text \<open>
  The logical path as the specification writes it, \<open>segment1/segment2/.../segmentN/\<close>:
  every segment followed by a separator, nothing for no segment.
\<close>

definition joined :: "string list \<Rightarrow> string" where
  "joined ss = concat (map (\<lambda>s. s @ ''/'') ss)"

text \<open>Pushing a list of names in order, and popping \<open>k\<close> times.\<close>

fun push_all :: "string list \<Rightarrow> 'e world \<Rightarrow> (unit, 'e) result" where
  "push_all [] w = Some (Inr ((), w))"
| "push_all (s # ss) w = then_do (push_segment (Some s) w) (\<lambda>_. push_all ss)"

fun pop_times :: "nat \<Rightarrow> 'e world \<Rightarrow> (unit, 'e) result" where
  "pop_times 0 w = Some (Inr ((), w))"
| "pop_times (Suc k) w = then_do (pop_segment w) (\<lambda>_. pop_times k)"

text \<open>
  What the outer loop of \<open>current_path\<close> does to the buffer, for the segments it meets
  in order.
\<close>

fun fill :: "nat \<Rightarrow> string list \<Rightarrow> char list \<times> nat \<Rightarrow> error + char list \<times> nat" where
  "fill last_char [] bb = Inr bb"
| "fill last_char (s # ss) bb =
    (case copy_segment last_char s bb of
       Inl e \<Rightarrow> Inl e
     | Inr (bytes, b) \<Rightarrow>
         (case store b CHR ''/'' bytes of
            None \<Rightarrow> Inl (OutOfBounds b)
          | Some bytes' \<Rightarrow> fill last_char ss (bytes', Suc b)))"

text \<open>
  The buffer of \<open>current_path\<close> when the bytes \<open>pre\<close> have been written from its
  start: \<open>PATH_MAX + 1\<close> bytes, zero behind \<open>pre\<close>.
\<close>

definition zbuf :: "nat \<Rightarrow> char list \<Rightarrow> char list" where
  "zbuf L pre = pre @ replicate (L + 1 - length pre) NUL"

text \<open>The outcome of a computation that does not touch the state.\<close>

definition lift_pure :: "error + 'a \<Rightarrow> 'e world \<Rightarrow> ('a, 'e) result" where
  "lift_pure r w = (case r of Inl e \<Rightarrow> Some (Inl (e, w)) | Inr x \<Rightarrow> Some (Inr (x, w)))"

text \<open>
  \<open>current_path\<close> without the state, for a stack that holds the segments \<open>ss\<close>: the
  loop over the segments, then the terminator.
\<close>

definition path_of :: "nat \<Rightarrow> string list \<Rightarrow> error + string" where
  "path_of L ss =
    (case fill L ss (replicate (L + 1) NUL, 0) of
       Inl e \<Rightarrow> Inl e
     | Inr (bytes, b) \<Rightarrow>
         (let b' = (if b < L then b else L)
          in case store b' NUL bytes of
               None \<Rightarrow> Inl (OutOfBounds b')
             | Some bytes' \<Rightarrow> Inr (c_str bytes')))"

text \<open>Events that are printed lines.\<close>

fun is_print :: "event \<Rightarrow> bool" where
  "is_print (Printf f args) = True"
| "is_print ev = False"

text \<open>The trace when a call ended.\<close>

definition trace :: "('a, 'e) result \<Rightarrow> event list" where
  "trace r = (case final_world r of None \<Rightarrow> [] | Some w \<Rightarrow> out w)"

text \<open>A folder name of 255 bytes, the longest an MTP device or a Linux file system gives.\<close>

definition long_segment :: string where
  "long_segment = replicate 255 CHR ''a''"

text \<open>
  A system for examples: \<open>PATH_MAX\<close> as on Linux, no local file exists, directories
  can be made and entered, the device lists nothing and every download works.
\<close>

definition quiet_system :: "unit system" where
  "quiet_system =
    \<lparr>PATH_MAX = 4096,
     sys_errno = (\<lambda>_. ENOENT),
     sys_fprintf = (\<lambda>e. e),
     sys_mkdir = (\<lambda>_ e. (0, e)),
     sys_chdir = (\<lambda>_ e. (0, e)),
     sys_stat = (\<lambda>_ e. (-1, 0, e)),
     sys_getcwd = (\<lambda>e. ([], e)),
     Get_Files_And_Folders = (\<lambda>_ _ e. ([], e)),
     Dump_Errorstack = (\<lambda>e. e),
     Clear_Errorstack = (\<lambda>e. e),
     Get_File_To_File = (\<lambda>_ _ e. (0, e)),
     Get_Filetype_Description = (\<lambda>_. ''Unknown filetype'')\<rparr>"

text \<open>The part of \<open>should_copy\<close> behind the call of \<open>current_path\<close>.\<close>

definition stat_decision :: "'e system \<Rightarrow> LIBMTP_file \<Rightarrow> string \<Rightarrow> 'e world \<Rightarrow> (int, 'e) result" where
  "stat_decision sys file path w1 =
    (case filename file of
        None \<Rightarrow> Some (Inl (NullDeref, w1))
      | Some fname \<Rightarrow>
          (let full_path = path @ fname;
               (r, st_size, e1) = sys_stat sys fname (env w1);
               w2 = (emit (Ev_stat fname) w1)\<lparr>env := e1\<rparr>
           in if r = -1
              then (if sys_errno sys e1 = ENOENT
                    then Some (Inr (1, emit (Printf ''STAT(%s)->ENOENT\<newline>'' [S fname]) w2))
                    else (let e2 = sys_fprintf sys e1
                          in Some (Inl (Exit (sys_errno sys e2),
                               (emit (Printf ''couldn't stat %s (%s) and errno is not ENOENT: %i\<newline>''
                                        [S fname, S full_path, I (sys_errno sys e1)]) w2)
                               \<lparr>env := e2\<rparr>))))
              else Some (Inr (if st_size \<noteq> filesize file then 1 else 0,
                     emit (Printf ''compare: %s (%s) : %li ==  %lu\<newline>''
                             [S fname, S full_path, I (sint st_size), I (uint (filesize file))])
                       w2))))"

text \<open>A file entry for examples.\<close>

definition example_file :: LIBMTP_file where
  "example_file =
    \<lparr>item_id = 7, parent_id = 0, storage_id = 0x10001, filename = Some ''a.txt'',
     filesize = 100, filetype = LIBMTP_FILETYPE_OTHER 0\<rparr>"

text \<open>The quiet system with a local file of the given size under every name.\<close>

definition local_file_system :: "64 word \<Rightarrow> unit system" where
  "local_file_system sz = quiet_system\<lparr>sys_stat := (\<lambda>_ e. (0, sz, e))\<rparr>"

text \<open>The quiet system where every \<open>stat\<close> fails with the given error number.\<close>

definition failing_stat_system :: "int \<Rightarrow> unit system" where
  "failing_stat_system n = quiet_system\<lparr>sys_errno := (\<lambda>_. n)\<rparr>"

subsection \<open>What a call does to the state\<close>

text \<open>The state in which a call that ended left the program.\<close>

definition world_of :: "error \<times> 'e world + 'a \<times> 'e world \<Rightarrow> 'e world" where
  "world_of y = (case y of Inl (x, w) \<Rightarrow> w | Inr (a, w) \<Rightarrow> w)"

text \<open>Nothing but printed lines lies between the two states.\<close>

definition prints_only :: "'e world \<Rightarrow> 'e world \<Rightarrow> bool" where
  "prints_only w w' = (\<exists>evs. list_all is_print evs \<and> w' = w\<lparr>out := out w @ evs\<rparr>)"

text \<open>
  The calls of \<open>push_segment\<close> and \<open>pop_segment\<close> in a trace. \<open>depth_after d evs\<close> is
  the number of segments on a stack of \<open>d\<close> segments after the calls in \<open>evs\<close>, each
  push adding one and each pop taking one; \<open>None\<close> when a pop finds none left. A trace
  is balanced when every push in it is matched by a later pop and every pop by an
  earlier push, and calm when it holds neither.
\<close>

fun stack_event :: "event \<Rightarrow> bool" where
  "stack_event (Ev_push_segment d) = True"
| "stack_event Ev_pop_segment = True"
| "stack_event ev = False"

definition calm :: "event list \<Rightarrow> bool" where
  "calm evs = list_all (\<lambda>ev. \<not> stack_event ev) evs"

fun depth_after :: "nat \<Rightarrow> event list \<Rightarrow> nat option" where
  "depth_after d [] = Some d"
| "depth_after d (Ev_push_segment x # evs) = depth_after (Suc d) evs"
| "depth_after d (Ev_pop_segment # evs) =
    (case d of 0 \<Rightarrow> None | Suc d' \<Rightarrow> depth_after d' evs)"
| "depth_after d (ev # evs) = depth_after d evs"

definition balanced :: "event list \<Rightarrow> bool" where
  "balanced evs = (depth_after 0 evs = Some 0)"

text \<open>Every pop in the trace comes after a push of the trace that no earlier pop has matched.\<close>

definition pops_after_push :: "event list \<Rightarrow> bool" where
  "pops_after_push evs = (depth_after 0 evs \<noteq> None)"

fun pushes :: "event list \<Rightarrow> nat" where
  "pushes [] = 0"
| "pushes (Ev_push_segment x # evs) = Suc (pushes evs)"
| "pushes (ev # evs) = pushes evs"

fun pops :: "event list \<Rightarrow> nat" where
  "pops [] = 0"
| "pops (Ev_pop_segment # evs) = Suc (pops evs)"
| "pops (ev # evs) = pops evs"

text \<open>
  From the state \<open>w\<close> to the state \<open>w'\<close> the program appended \<open>evs\<close> to the trace;
  it left the cells and the two pointers of the stack alone; it did so with a calm,
  a balanced, or a trace whose pops all come after their push.
\<close>

definition steps :: "'e world \<Rightarrow> 'e world \<Rightarrow> event list \<Rightarrow> bool" where
  "steps w w' evs = (out w' = out w @ evs)"

definition same_stack :: "'e world \<Rightarrow> 'e world \<Rightarrow> bool" where
  "same_stack w w' =
    (heap w' = heap w \<and> brk w' = brk w \<and> path_stack_first w' = path_stack_first w \<and>
     path_stack_last w' = path_stack_last w)"

definition calm_step :: "'e world \<Rightarrow> 'e world \<Rightarrow> bool" where
  "calm_step w w' = (same_stack w w' \<and> (\<exists>evs. steps w w' evs \<and> calm evs))"

definition bal_step :: "'e world \<Rightarrow> 'e world \<Rightarrow> bool" where
  "bal_step w w' = (\<exists>evs. steps w w' evs \<and> balanced evs)"

definition safe_step :: "'e world \<Rightarrow> 'e world \<Rightarrow> bool" where
  "safe_step w w' = (\<exists>evs. steps w w' evs \<and> pops_after_push evs)"

definition good :: "'e world \<Rightarrow> 'e world \<Rightarrow> addr list \<Rightarrow> string list \<Rightarrow> bool" where
  "good w w' as ss = (path_stack w' as ss \<and> bal_step w w')"

text \<open>
  What holds of a call that started in \<open>w\<close> with the stack \<open>ss\<close> and ended with \<open>y\<close>:
  if it returned, the stack is as before and the trace is balanced; if it ended the
  run, no pop came before its push.
\<close>

definition run_ok ::
  "'e world \<Rightarrow> error \<times> 'e world + 'a \<times> 'e world \<Rightarrow> addr list \<Rightarrow> string list \<Rightarrow> bool" where
  "run_ok w y as ss =
    (case y of
       Inl (x, w') \<Rightarrow> safe_step w w'
     | Inr (u, w') \<Rightarrow> good w w' as ss)"

text \<open>
  The trace of the visit of a folder named \<open>d\<close>: one push of \<open>d\<close>, a balanced trace,
  one pop, and nothing on the stack before or after.
\<close>

definition nested_step :: "'e world \<Rightarrow> 'e world \<Rightarrow> string option \<Rightarrow> bool" where
  "nested_step w w' d =
    (\<exists>pre inner post. out w' = out w @ pre @ Ev_push_segment d # inner @ Ev_pop_segment # post \<and>
       calm pre \<and> balanced inner \<and> calm post)"

definition folder_ok ::
  "'e world \<Rightarrow> error \<times> 'e world + 'a \<times> 'e world \<Rightarrow> addr list \<Rightarrow> string list \<Rightarrow>
   string option \<Rightarrow> bool" where
  "folder_ok w y as ss d =
    (case y of
       Inl (x, w') \<Rightarrow> safe_step w w'
     | Inr (u, w') \<Rightarrow> path_stack w' as ss \<and> nested_step w w' d)"

subsection \<open>States, entries and systems for examples\<close>

text \<open>The state after entering \<open>k\<close> nested folders with names of 255 bytes.\<close>

definition nested_world :: "nat \<Rightarrow> unit world" where
  "nested_world k =
    (case push_all (replicate k long_segment) (initial_world ()) of
       Some (Inr (u, w)) \<Rightarrow> w
     | _ \<Rightarrow> initial_world ())"

text \<open>
  A system whose outside state is the value of \<open>errno\<close>: every \<open>stat\<close> fails with
  \<open>EACCES\<close> (13), and every \<open>fprintf\<close> fails and leaves \<open>EIO\<close> (5) behind.
\<close>

definition failing_print_system :: "int system" where
  "failing_print_system =
    \<lparr>PATH_MAX = 4096,
     sys_errno = (\<lambda>e. e),
     sys_fprintf = (\<lambda>_. 5),
     sys_mkdir = (\<lambda>_ e. (0, e)),
     sys_chdir = (\<lambda>_ e. (0, e)),
     sys_stat = (\<lambda>_ _. (-1, 0, 13)),
     sys_getcwd = (\<lambda>e. ([], e)),
     Get_Files_And_Folders = (\<lambda>_ _ e. ([], e)),
     Dump_Errorstack = (\<lambda>e. e),
     Clear_Errorstack = (\<lambda>e. e),
     Get_File_To_File = (\<lambda>_ _ e. (0, e)),
     Get_Filetype_Description = (\<lambda>_. ''Unknown filetype'')\<rparr>"

text \<open>Two folder entries.\<close>

definition example_folder :: LIBMTP_file where
  "example_folder =
    \<lparr>item_id = 3, parent_id = 0, storage_id = 0x10001, filename = Some ''docs'',
     filesize = 0, filetype = LIBMTP_FILETYPE_FOLDER\<rparr>"

definition private_folder :: LIBMTP_file where
  "private_folder =
    \<lparr>item_id = 4, parent_id = 3, storage_id = 0x10001, filename = Some ''private'',
     filesize = 0, filetype = LIBMTP_FILETYPE_FOLDER\<rparr>"

text \<open>
  The given system with a device that lists the folder \<open>docs\<close> and the file \<open>a.txt\<close> in
  its root folder and the entries \<open>inner\<close> in \<open>docs\<close>, and with a \<open>PATH_MAX\<close> of 16.
\<close>

definition tree_system :: "unit system \<Rightarrow> LIBMTP_file list \<Rightarrow> unit system" where
  "tree_system sys inner =
    sys\<lparr>PATH_MAX := 16,
      Get_Files_And_Folders :=
        (\<lambda>_ leaf e. (if leaf = 0xFFFFFFFF then [example_folder, example_file]
                      else if leaf = 3 then inner else [], e))\<rparr>"

text \<open>The quiet system where \<open>mkdir\<close> fails with \<open>EACCES\<close> (13) for the name \<open>private\<close>.\<close>

definition locked_folder_system :: "unit system" where
  "locked_folder_system =
    quiet_system\<lparr>sys_errno := (\<lambda>_. 13),
      sys_mkdir := (\<lambda>d e. (if d = Some ''private'' then -1 else 0, e))\<rparr>"

text \<open>The quiet system where \<open>mkdir\<close> fails with the given error number.\<close>

definition failing_mkdir_system :: "int \<Rightarrow> unit system" where
  "failing_mkdir_system n = quiet_system\<lparr>sys_errno := (\<lambda>_. n), sys_mkdir := (\<lambda>_ e. (-1, e))\<rparr>"

text \<open>The quiet system where \<open>chdir\<close> fails with the given error number.\<close>

definition failing_chdir_system :: "int \<Rightarrow> unit system" where
  "failing_chdir_system n = quiet_system\<lparr>sys_errno := (\<lambda>_. n), sys_chdir := (\<lambda>_ e. (-1, e))\<rparr>"

text \<open>The quiet system where every directory exists already.\<close>

definition existing_dir_system :: "unit system" where
  "existing_dir_system = quiet_system\<lparr>sys_errno := (\<lambda>_. EEXIST), sys_mkdir := (\<lambda>_ e. (-1, e))\<rparr>"

text \<open>
  The quiet system with a device that lists \<open>example_file\<close> in its root folder and a
  local file of the same size.
\<close>

definition one_file_system :: "unit system" where
  "one_file_system =
    quiet_system\<lparr>sys_stat := (\<lambda>_ e. (0, 100, e)),
      Get_Files_And_Folders := (\<lambda>_ leaf e. (if leaf = 0xFFFFFFFF then [example_file] else [], e))\<rparr>"

section \<open>Properties\<close>

subsection \<open>Sequencing\<close>

lemma then_do_simps [simp]:
  "then_do None f = None"
  "then_do (Some (Inl x)) f = Some (Inl x)"
  "then_do (Some (Inr (a, w))) f = f a w"
  by (simp_all add: then_do_def)

subsection \<open>The failure counter\<close>

lemma fails_below: "n < 10 \<Longrightarrow> \<not> 10 <s (word_of_nat n + 1 :: 32 word)"
proof -
  assume "n < 10"
  then have "n \<in> {0, 1, 2, 3, 4, 5, 6, 7, 8, 9::nat}" by auto
  then show ?thesis by (auto simp: word_sless_alt)
qed

lemma exit_if_returns:
  "fails w = word_of_nat n \<Longrightarrow> n < 10 \<Longrightarrow>
   \<exists>w'. exit_if_too_many_fails w = Some (Inr ((), w')) \<and> fails w' = word_of_nat (Suc n)"
  by (simp add: exit_if_too_many_fails_def Let_def emit_def fails_below)

lemma exit_if_exits:
  "fails w = 10 \<Longrightarrow>
   \<exists>w'. exit_if_too_many_fails w = Some (Inl (Exit 1, w')) \<and> fails w' = 11"
  by (simp add: exit_if_too_many_fails_def Let_def emit_def word_sless_alt)

lemma exit_if_counts:
  "\<exists>w'. fails w' = fails w + 1 \<and>
     exit_if_too_many_fails w =
       (if 10 <s fails w' then Some (Inl (Exit 1, w')) else Some (Inr ((), w')))"
  unfolding exit_if_too_many_fails_def Let_def
  by (rule exI [of _ "emit (Printf ''total fails so far: %i'' [I (sint (fails w + 1))])
                        (w\<lparr>fails := fails w + 1\<rparr>)"])
     (simp add: emit_def)

lemma record_failures_returns:
  "n \<le> 10 \<Longrightarrow>
   \<exists>w'. record_failures n (initial_world e) = Some (Inr ((), w')) \<and> fails w' = word_of_nat n"
proof (induction n)
  case 0
  show ?case by (simp add: initial_world_def)
next
  case (Suc n)
  then obtain w1 where w1: "record_failures n (initial_world e) = Some (Inr ((), w1))"
    "fails w1 = word_of_nat n" by auto
  from Suc.prems have "n < 10" by simp
  from exit_if_returns [OF w1(2) this] w1(1) show ?case by simp
qed

lemma sint_small: "n \<le> 10 \<Longrightarrow> sint (word_of_nat n :: 32 word) = int n"
proof -
  assume "n \<le> 10"
  then have "n = 0 \<or> n = 1 \<or> n = 2 \<or> n = 3 \<or> n = 4 \<or> n = 5 \<or> n = 6 \<or> n = 7 \<or>
    n = 8 \<or> n = 9 \<or> n = 10"
    by arith
  then show ?thesis by (elim disjE) simp_all
qed

lemma record_failures_eleven:
  "record_failures 11 w = then_do (record_failures 10 w) (\<lambda>_. exit_if_too_many_fails)"
proof -
  have "(11::nat) = Suc 10" by simp
  then show ?thesis by (simp only: record_failures.simps)
qed

lemma record_failures_ten:
  "\<exists>w1. record_failures 10 (initial_world e) = Some (Inr ((), w1)) \<and> fails w1 = 10"
  using record_failures_returns [of 10 e] by simp

text \<open>
  Claim C4. The counter \<open>fails\<close> is zero at the start. Every call of
  \<open>exit_if_too_many_fails\<close> adds exactly one to it, and ends the process with
  \<open>exit(1)\<close> exactly when the new value is above 10. So \<open>n \<le> 10\<close> calls from the start
  all return and leave the counter at \<open>n\<close>: after ten failures the run is still going.
  The eleventh call finds the counter at 11, above the threshold, and ends the process
  with a status that is not zero.
\<close>

theorem failure_budget_threshold:
  "fails (initial_world e) = 0 \<and>
   (\<forall>w :: 'e world. \<exists>w'. fails w' = fails w + 1 \<and>
       exit_if_too_many_fails w =
         (if 10 <s fails w' then Some (Inl (Exit 1, w')) else Some (Inr ((), w')))) \<and>
   (n \<le> 10 \<longrightarrow>
      (\<exists>w'. record_failures n (initial_world e) = Some (Inr ((), w')) \<and>
            sint (fails w') = int n)) \<and>
   (\<exists>w'. record_failures 11 (initial_world e) = Some (Inl (Exit 1, w')) \<and>
         sint (fails w') = 11 \<and> 10 < sint (fails w') \<and> exit_status 1 \<noteq> 0)"
proof -
  have c1: "fails (initial_world e) = 0"
    by (simp add: initial_world_def)
  have c2: "\<forall>w :: 'e world. \<exists>w'. fails w' = fails w + 1 \<and>
       exit_if_too_many_fails w =
         (if 10 <s fails w' then Some (Inl (Exit 1, w')) else Some (Inr ((), w')))"
  proof (intro allI)
    fix w :: "'e world"
    show "\<exists>w'. fails w' = fails w + 1 \<and>
       exit_if_too_many_fails w =
         (if 10 <s fails w' then Some (Inl (Exit 1, w')) else Some (Inr ((), w')))"
      by (rule exit_if_counts)
  qed
  have c3: "\<exists>w'. record_failures n (initial_world e) = Some (Inr ((), w')) \<and>
          sint (fails w') = int n" if "n \<le> 10"
  proof -
    from record_failures_returns [of n e, OF that] obtain w' where
      w: "record_failures n (initial_world e) = Some (Inr ((), w'))"
         "fails w' = word_of_nat n" by (elim exE conjE)
    from w(2) sint_small [OF that] have "sint (fails w') = int n" by simp
    with w(1) show ?thesis by (intro exI [of _ w'] conjI)
  qed
  have c4: "\<exists>w'. record_failures 11 (initial_world e) = Some (Inl (Exit 1, w')) \<and>
          sint (fails w') = 11 \<and> 10 < sint (fails w') \<and> exit_status 1 \<noteq> 0"
  proof -
    from record_failures_ten [of e] obtain w1 where
      w1: "record_failures 10 (initial_world e) = Some (Inr ((), w1))" "fails w1 = 10"
      by (elim exE conjE)
    from exit_if_exits [OF w1(2)] obtain w' where
      w': "exit_if_too_many_fails w1 = Some (Inl (Exit 1, w'))" "fails w' = 11"
      by (elim exE conjE)
    have r: "record_failures 11 (initial_world e) = Some (Inl (Exit 1, w'))"
      by (simp only: record_failures_eleven w1(1) then_do_simps w'(1))
    have s: "sint (fails w') = 11" by (simp add: w'(2))
    have e: "exit_status 1 \<noteq> 0" by (simp add: exit_status_def)
    have "10 < sint (fails w')" by (simp add: w'(2))
    with r s e show ?thesis by (intro exI [of _ w'] conjI)
  qed
  from c3 have c3': "n \<le> 10 \<longrightarrow>
      (\<exists>w'. record_failures n (initial_world e) = Some (Inr ((), w')) \<and>
            sint (fails w') = int n)"
    by (intro impI)
  from c1 c2 c3' c4 show ?thesis by (intro conjI)
qed

theorem failure_budget_threshold_witness:
  "(10::nat) \<le> 10 \<and>
   (\<exists>w'. record_failures 10 (initial_world ()) = Some (Inr ((), w')) \<and> sint (fails w') = 10)"
proof -
  from failure_budget_threshold [of "()" 10]
  have "(10::nat) \<le> 10 \<longrightarrow>
      (\<exists>w'. record_failures 10 (initial_world ()) = Some (Inr ((), w')) \<and>
            sint (fails w') = int 10)"
    by (elim conjE)
  then show ?thesis by simp
qed

subsection \<open>The buffer of the current path\<close>

lemma length_zbuf: "length pre \<le> L + 1 \<Longrightarrow> length (zbuf L pre) = L + 1"
  by (simp add: zbuf_def)

lemma store_zbuf:
  "length pre \<le> L \<Longrightarrow> store (length pre) c (zbuf L pre) = Some (zbuf L (pre @ [c]))"
proof -
  assume a: "length pre \<le> L"
  then have e: "Suc L - length pre = Suc (L - length pre)" by (rule Suc_diff_le)
  have z: "zbuf L pre = pre @ NUL # replicate (L - length pre) NUL"
    by (simp add: zbuf_def e)
  have z': "zbuf L (pre @ [c]) = pre @ c # replicate (L - length pre) NUL"
    by (simp add: zbuf_def)
  show ?thesis
    unfolding z z' by (simp add: store_def list_update_append)
qed

lemma store_outside: "length bytes \<le> i \<Longrightarrow> store i c bytes = None"
  by (simp add: store_def)

lemma copy_segment_zbuf:
  "length pre \<le> L \<Longrightarrow>
   copy_segment L s (zbuf L pre, length pre) =
     Inr (zbuf L (pre @ take (L - length pre) s), length (pre @ take (L - length pre) s))"
proof (induction s arbitrary: pre)
  case Nil
  then show ?case by simp
next
  case (Cons c s)
  show ?case
  proof (cases "length pre < L")
    case True
    then have le: "length (pre @ [c]) \<le> L" by simp
    from True have tk: "take (L - length pre) (c # s) = c # take (L - length (pre @ [c])) s"
    proof -
      from True have "L - length pre = Suc (L - length (pre @ [c]))" by simp
      then show ?thesis by (simp only: take_Suc_Cons)
    qed
    from True have st: "store (length pre) c (zbuf L pre) = Some (zbuf L (pre @ [c]))"
      by (simp add: store_zbuf)
    have "copy_segment L (c # s) (zbuf L pre, length pre) =
          copy_segment L s (zbuf L (pre @ [c]), length (pre @ [c]))"
      using True st by simp
    also have "\<dots> = Inr (zbuf L ((pre @ [c]) @ take (L - length (pre @ [c])) s),
                       length ((pre @ [c]) @ take (L - length (pre @ [c])) s))"
      by (rule Cons.IH [OF le])
    finally show ?thesis by (simp add: tk)
  next
    case False
    with Cons.prems have "length pre = L" by simp
    then show ?thesis by simp
  qed
qed

lemma copy_segment_full:
  "L \<le> b \<Longrightarrow> copy_segment L s (bytes, b) = Inr (bytes, b)"
  by (cases s) simp_all

lemma fill_append:
  "fill L (xs @ ys) bb = (case fill L xs bb of Inl e \<Rightarrow> Inl e | Inr bb' \<Rightarrow> fill L ys bb')"
proof (induction xs arbitrary: bb)
  case Nil
  show ?case by simp
next
  case (Cons x xs)
  show ?case
    by (cases "copy_segment L x bb") (auto simp: Cons.IH split: option.splits)
qed

lemma joined_Nil [simp]: "joined [] = []"
  by (simp add: joined_def)

lemma joined_Cons: "joined (s # ss) = s @ CHR ''/'' # joined ss"
  by (simp add: joined_def)

lemma joined_append: "joined (xs @ ys) = joined xs @ joined ys"
  by (simp add: joined_def)

lemma fill_fits:
  "length (pre @ joined ss) \<le> L \<Longrightarrow>
   fill L ss (zbuf L pre, length pre) = Inr (zbuf L (pre @ joined ss), length (pre @ joined ss))"
proof (induction ss arbitrary: pre)
  case Nil
  show ?case by simp
next
  case (Cons s ss)
  from Cons.prems have l1: "length pre + length s < L" and l0: "length pre \<le> L"
    by (simp_all add: joined_Cons)
  then have tk: "take (L - length pre) s = s" by simp
  from l1 have l2: "length (pre @ s) \<le> L" by simp
  have l3: "length ((pre @ s @ ''/'') @ joined ss) \<le> L"
    using Cons.prems by (simp add: joined_Cons)
  have c: "copy_segment L s (zbuf L pre, length pre) = Inr (zbuf L (pre @ s), length (pre @ s))"
    using copy_segment_zbuf [OF l0, of s] by (simp only: tk)
  have st: "store (length (pre @ s)) CHR ''/'' (zbuf L (pre @ s)) = Some (zbuf L ((pre @ s) @ ''/''))"
    by (rule store_zbuf [OF l2])
  have "fill L (s # ss) (zbuf L pre, length pre) =
        fill L ss (zbuf L (pre @ s @ ''/''), length (pre @ s @ ''/''))"
    by (simp add: c st del: length_append) simp
  also have "\<dots> = Inr (zbuf L ((pre @ s @ ''/'') @ joined ss), length ((pre @ s @ ''/'') @ joined ss))"
    by (rule Cons.IH [OF l3])
  finally show ?case by (simp add: joined_Cons)
qed

lemma zbuf_full: "length pre = L + 1 \<Longrightarrow> zbuf L pre = pre"
  by (simp add: zbuf_def)

lemma fill_last:
  assumes "length pre \<le> L" and "L \<le> length pre + length s"
  shows "fill L [s] (zbuf L pre, length pre) = Inr (pre @ take (L - length pre) s @ ''/'', L + 1)"
proof -
  let ?p = "pre @ take (L - length pre) s"
  from assms have len: "length ?p = L" by simp
  then have le: "length ?p \<le> L" by simp
  have c: "copy_segment L s (zbuf L pre, length pre) = Inr (zbuf L ?p, length ?p)"
    by (rule copy_segment_zbuf [OF assms(1)])
  have st: "store (length ?p) CHR ''/'' (zbuf L ?p) = Some (zbuf L (?p @ ''/''))"
    by (rule store_zbuf [OF le])
  have z: "zbuf L (?p @ ''/'') = ?p @ ''/''"
  proof (rule zbuf_full)
    from assms show "length (?p @ ''/'') = L + 1" by (auto simp: min_def)
  qed
  have "fill L [s] (zbuf L pre, length pre) = Inr (zbuf L (?p @ ''/''), Suc (length ?p))"
    by (simp add: c st del: length_append append_assoc)
  then show ?thesis by (simp only: z len) simp
qed

lemma fill_overflow:
  assumes "L < b" and "length bytes \<le> b"
  shows "fill L (t # rest) (bytes, b) = Inl (OutOfBounds b)"
proof -
  from assms(1) have "copy_segment L t (bytes, b) = Inr (bytes, b)"
    by (simp add: copy_segment_full)
  moreover from assms(2) have "store b CHR ''/'' bytes = None"
    by (rule store_outside)
  ultimately show ?thesis by simp
qed

lemma emit_heap [simp]: "heap (emit ev w) = heap w"
  by (simp add: emit_def)

lemma path_loop_None: "path_loop L None bb w = Some (Inr (bb, w))"
  by (subst path_loop.simps) simp

lemma path_loop_Some:
  "heap w a = Some \<lparr>segment = s, prev = p, nxt = n\<rparr> \<Longrightarrow>
   path_loop L (Some a) bb w =
     (case copy_segment L s bb of
        Inl e \<Rightarrow> Some (Inl (e, w))
      | Inr (bytes, b) \<Rightarrow>
          (case store b CHR ''/'' bytes of
             None \<Rightarrow> Some (Inl (OutOfBounds b, w))
           | Some bytes' \<Rightarrow>
               path_loop L n (bytes', Suc b)
                 (emit (Printf ''BUF %s segment %s\<newline>'' [buf_arg bytes', S s]) w)))"
  by (subst path_loop.simps) (simp split: sum.split option.split prod.split)

lemma lift_pure_simps [simp]:
  "lift_pure (Inl e) w = Some (Inl (e, w))"
  "lift_pure (Inr x) w = Some (Inr (x, w))"
  by (simp_all add: lift_pure_def)

lemma path_loop_chain:
  "chain (heap w) p as ss \<Longrightarrow>
   \<exists>evs. list_all is_print evs \<and>
     path_loop L (ptr as) bb w = lift_pure (fill L ss bb) (w\<lparr>out := out w @ evs\<rparr>)"
proof (induction as arbitrary: ss p bb w)
  case Nil
  then have "ss = []" by (cases ss) simp_all
  then have "list_all is_print [] \<and>
     path_loop L (ptr []) bb w = lift_pure (fill L ss bb) (w\<lparr>out := out w @ []\<rparr>)"
    by (simp add: ptr_def path_loop_None)
  then show ?case by (rule exI)
next
  case (Cons a as)
  then obtain s ss' where ss: "ss = s # ss'" by (cases ss) simp_all
  from Cons.prems ss have cell: "heap w a = Some \<lparr>segment = s, prev = p, nxt = ptr as\<rparr>"
    and ch: "chain (heap w) (Some a) as ss'"
    by simp_all
  have step: "path_loop L (ptr (a # as)) bb w =
     (case copy_segment L s bb of
        Inl e \<Rightarrow> Some (Inl (e, w))
      | Inr (bytes, b) \<Rightarrow>
          (case store b CHR ''/'' bytes of
             None \<Rightarrow> Some (Inl (OutOfBounds b, w))
           | Some bytes' \<Rightarrow>
               path_loop L (ptr as) (bytes', Suc b)
                 (emit (Printf ''BUF %s segment %s\<newline>'' [buf_arg bytes', S s]) w)))"
    using path_loop_Some [OF cell, of L bb] by (simp add: ptr_def)
  show ?case
  proof (cases "copy_segment L s bb")
    case (Inl e)
    have "list_all is_print [] \<and>
     path_loop L (ptr (a # as)) bb w = lift_pure (fill L ss bb) (w\<lparr>out := out w @ []\<rparr>)"
      by (simp add: step ss Inl)
    then show ?thesis by (rule exI)
  next
    case (Inr r)
    obtain bytes b where r: "r = (bytes, b)" by (cases r)
    show ?thesis
    proof (cases "store b CHR ''/'' bytes")
      case None
      have "list_all is_print [] \<and>
       path_loop L (ptr (a # as)) bb w = lift_pure (fill L ss bb) (w\<lparr>out := out w @ []\<rparr>)"
        by (simp add: step ss Inr r None)
      then show ?thesis by (rule exI)
    next
      case (Some bytes')
      let ?ev = "Printf ''BUF %s segment %s\<newline>'' [buf_arg bytes', S s]"
      let ?w = "emit ?ev w"
      from ch have "chain (heap ?w) (Some a) as ss'" by simp
      from Cons.IH [OF this, of "(bytes', Suc b)"] obtain evs where
        evs: "list_all is_print evs"
        "path_loop L (ptr as) (bytes', Suc b) ?w =
           lift_pure (fill L ss' (bytes', Suc b)) (?w\<lparr>out := out ?w @ evs\<rparr>)"
        by (elim exE conjE)
      have w: "?w\<lparr>out := out ?w @ evs\<rparr> = w\<lparr>out := out w @ ?ev # evs\<rparr>"
        by (simp add: emit_def)
      have "list_all is_print (?ev # evs) \<and>
       path_loop L (ptr (a # as)) bb w =
         lift_pure (fill L ss bb) (w\<lparr>out := out w @ ?ev # evs\<rparr>)"
        using evs(1) by (simp add: step ss Inr r Some evs(2) w)
      then show ?thesis by (rule exI)
    qed
  qed
qed

lemma count_segments_None: "count_segments h None n = Some (Inr n)"
  by (subst count_segments.simps) simp

lemma count_segments_Some:
  "h a = Some cell \<Longrightarrow> count_segments h (Some a) n = count_segments h (nxt cell) (n + 1)"
  by (subst count_segments.simps) simp

lemma count_segments_chain:
  "chain h p as ss \<Longrightarrow> count_segments h (ptr as) n = Some (Inr (n + int (length as)))"
proof (induction as arbitrary: ss p n)
  case Nil
  show ?case by (simp add: ptr_def count_segments_None)
next
  case (Cons a as)
  then obtain s ss' where ss: "ss = s # ss'" by (cases ss) simp_all
  from Cons.prems ss have cell: "h a = Some \<lparr>segment = s, prev = p, nxt = ptr as\<rparr>"
    and ch: "chain h (Some a) as ss'"
    by simp_all
  have "count_segments h (ptr (a # as)) n = count_segments h (ptr as) (n + 1)"
    using count_segments_Some [of h a "\<lparr>segment = s, prev = p, nxt = ptr as\<rparr>" n] cell
    by (simp add: ptr_def)
  also have "\<dots> = Some (Inr (n + 1 + int (length as)))"
    by (rule Cons.IH [OF ch])
  finally show ?case by simp
qed

lemma current_path_len_stack:
  "path_stack w as ss \<Longrightarrow> current_path_len w = Some (Inr (int (length as), w))"
  using count_segments_chain [of "heap w" None as ss 0]
  by (simp add: path_stack_def current_path_len_def)

lemma current_path_stack:
  assumes "path_stack w as ss"
  shows "\<exists>evs. list_all is_print evs \<and>
     current_path sys w = lift_pure (path_of (PATH_MAX sys) ss) (w\<lparr>out := out w @ evs\<rparr>)"
proof -
  let ?L = "PATH_MAX sys"
  let ?ev = "Printf ''PATHLEN %i\<newline>'' [I (int (length as))]"
  let ?w = "emit ?ev w"
  define B0 where "B0 = (replicate (?L + 1) NUL, 0::nat)"
  from assms have ch: "chain (heap ?w) None as ss" and first: "path_stack_first w = ptr as"
    by (simp_all add: path_stack_def)
  from path_loop_chain [OF ch, of ?L B0] obtain evs where
    evs: "list_all is_print evs"
      "path_loop ?L (ptr as) B0 ?w = lift_pure (fill ?L ss B0) (?w\<lparr>out := out ?w @ evs\<rparr>)"
    by (elim exE conjE)
  have w: "?w\<lparr>out := out ?w @ evs\<rparr> = w\<lparr>out := out w @ ?ev # evs\<rparr>"
    by (simp add: emit_def)
  let ?w' = "w\<lparr>out := out w @ ?ev # evs\<rparr>"
  have cp: "current_path sys w =
      (case lift_pure (fill ?L ss B0) ?w' of
         None \<Rightarrow> None
       | Some (Inl x) \<Rightarrow> Some (Inl x)
       | Some (Inr ((bytes, b), w2)) \<Rightarrow>
           (let b' = (if b < ?L then b else ?L)
            in case store b' NUL bytes of
                 None \<Rightarrow> Some (Inl (OutOfBounds b', w2))
               | Some bytes' \<Rightarrow> Some (Inr (c_str bytes', w2))))"
    unfolding current_path_def Let_def current_path_len_stack [OF assms]
    by (simp only: option.case sum.case prod.case first evs(2) [unfolded B0_def w] B0_def)
  have po: "path_of ?L ss =
      (case fill ?L ss B0 of
         Inl e \<Rightarrow> Inl e
       | Inr (bytes, b) \<Rightarrow>
           (let b' = (if b < ?L then b else ?L)
            in case store b' NUL bytes of
                 None \<Rightarrow> Inl (OutOfBounds b')
               | Some bytes' \<Rightarrow> Inr (c_str bytes')))"
    unfolding path_of_def B0_def by (rule refl)
  have "current_path sys w = lift_pure (path_of ?L ss) ?w'"
  proof (cases "fill ?L ss B0")
    case (Inl e)
    show ?thesis unfolding cp po Inl by simp
  next
    case (Inr r)
    obtain bytes b where r: "r = (bytes, b)" by (cases r)
    show ?thesis
      unfolding cp po Inr r
      by (cases "store (if b < ?L then b else ?L) NUL bytes") (simp_all add: Let_def)
  qed
  moreover have "list_all is_print (?ev # evs)" using evs(1) by simp
  ultimately show ?thesis by (intro exI [of _ "?ev # evs"] conjI)
qed

lemma c_str_prefix: "NUL \<notin> set pre \<Longrightarrow> c_str (pre @ NUL # rest) = pre"
  by (auto simp: c_str_def takeWhile_tail)

lemma zbuf_empty: "zbuf L [] = replicate (L + 1) NUL"
  by (simp add: zbuf_def)

lemma finish_fits:
  assumes "length pre \<le> L" and "NUL \<notin> set pre"
  shows "(let b' = (if length pre < L then length pre else L)
          in case store b' NUL (zbuf L pre) of
               None \<Rightarrow> Inl (OutOfBounds b')
             | Some bytes' \<Rightarrow> Inr (c_str bytes')) = Inr pre"
proof -
  from assms(1) have b: "(if length pre < L then length pre else L) = length pre" by simp
  have z: "zbuf L (pre @ [NUL]) = pre @ NUL # replicate (L - length pre) NUL"
    by (simp add: zbuf_def)
  show ?thesis
    unfolding Let_def b store_zbuf [OF assms(1)] z
    by (simp add: c_str_prefix [OF assms(2)])
qed

lemma NUL_not_slash: "NUL \<noteq> CHR ''/''"
  by (simp add: NUL_def)

lemma joined_cstring: "\<forall>s \<in> set ss. cstring s \<Longrightarrow> NUL \<notin> set (joined ss)"
  by (induction ss) (auto simp: joined_Cons cstring_def NUL_def)

lemma path_of_fits:
  assumes "length (joined ss) \<le> L" and "\<forall>s \<in> set ss. cstring s"
  shows "path_of L ss = Inr (joined ss)"
proof -
  from assms(1) have l: "length ([] @ joined ss) \<le> L" by simp
  have f: "fill L ss (replicate (L + 1) NUL, 0) = Inr (zbuf L (joined ss), length (joined ss))"
    using fill_fits [OF l] by (simp add: zbuf_empty)
  show ?thesis
    unfolding path_of_def f
    using finish_fits [OF assms(1) joined_cstring [OF assms(2)]] by simp
qed

lemma store_end: "length p = L \<Longrightarrow> store L c (p @ [d]) = Some (p @ [c])"
  by (auto simp: store_def list_update_append)

lemma path_of_truncates:
  assumes "length (joined ss1) \<le> L" and "L \<le> length (joined ss1) + length s"
    and "\<forall>x \<in> set (ss1 @ [s]). cstring x"
  shows "path_of L (ss1 @ [s]) = Inr (take L (joined (ss1 @ [s])))"
proof -
  define p where "p = joined ss1 @ take (L - length (joined ss1)) s"
  from assms(1) have l: "length ([] @ joined ss1) \<le> L" by simp
  have f1: "fill L ss1 (replicate (L + 1) NUL, 0) = Inr (zbuf L (joined ss1), length (joined ss1))"
    using fill_fits [OF l] by (simp add: zbuf_empty)
  have f2: "fill L [s] (zbuf L (joined ss1), length (joined ss1)) = Inr (p @ ''/'', L + 1)"
    using fill_last [OF assms(1,2)] by (simp add: p_def)
  have f: "fill L (ss1 @ [s]) (replicate (L + 1) NUL, 0) = Inr (p @ ''/'', L + 1)"
    by (simp only: fill_append f1 sum.case f2)
  from assms(1,2) have len: "length p = L" by (auto simp: min_def p_def)
  have st: "store L NUL (p @ ''/'') = Some (p @ [NUL])"
    by (rule store_end [OF len])
  from assms(3) have "NUL \<notin> set (joined (ss1 @ [s]))" by (rule joined_cstring)
  then have nn: "NUL \<notin> set p"
    by (auto simp: joined_append joined_Cons p_def dest: in_set_takeD)
  have tk: "take L (joined (ss1 @ [s])) = p"
    using assms(1,2) by (simp add: joined_append joined_Cons p_def)
  have "path_of L (ss1 @ [s]) = Inr (c_str (p @ [NUL]))"
    unfolding path_of_def f by (simp add: st)
  also have "c_str (p @ [NUL]) = p" by (rule c_str_prefix [OF nn])
  finally show ?thesis by (simp only: tk)
qed

lemma path_of_overflow:
  assumes "length (joined ss1) \<le> L" and "L \<le> length (joined ss1) + length s"
  shows "path_of L (ss1 @ s # t # rest) = Inl (OutOfBounds (L + 1))"
proof -
  define p where "p = joined ss1 @ take (L - length (joined ss1)) s"
  from assms(1) have l: "length ([] @ joined ss1) \<le> L" by simp
  have f1: "fill L ss1 (replicate (L + 1) NUL, 0) = Inr (zbuf L (joined ss1), length (joined ss1))"
    using fill_fits [OF l] by (simp add: zbuf_empty)
  have f2: "fill L [s] (zbuf L (joined ss1), length (joined ss1)) = Inr (p @ ''/'', L + 1)"
    using fill_last [OF assms(1,2)] by (simp add: p_def)
  from assms(1,2) have len: "length (p @ ''/'') \<le> L + 1" by (auto simp: min_def p_def)
  have f3: "fill L (t # rest) (p @ ''/'', L + 1) = Inl (OutOfBounds (L + 1))"
    by (rule fill_overflow) (simp, rule len)
  have "ss1 @ s # t # rest = ss1 @ [s] @ (t # rest)" by simp
  then have "fill L (ss1 @ s # t # rest) (replicate (L + 1) NUL, 0) = Inl (OutOfBounds (L + 1))"
    by (simp only: fill_append f1 sum.case f2 f3)
  then show ?thesis by (simp add: path_of_def)
qed

subsection \<open>Pushing and popping\<close>

lemma chain_length: "chain h p as ss \<Longrightarrow> length as = length ss"
  by (induction h p as ss rule: chain.induct) simp_all

lemma ptr_simps [simp]:
  "ptr [] = None"
  "ptr (a # as) = Some a"
  by (simp_all add: ptr_def)

lemma ptr_append: "ptr (as @ [a]) = (case as of [] \<Rightarrow> Some a | x # _ \<Rightarrow> Some x)"
  by (cases as) simp_all

lemma ptr_rev_snoc [simp]: "ptr (rev (as @ [a])) = Some a"
  by simp

lemma ptr_rev: "as \<noteq> [] \<Longrightarrow> ptr (rev as) = Some (last as)"
  by (induction as rule: rev_induct) simp_all

lemma chain_snoc:
  assumes "chain h p as ss" and "as \<noteq> []" and "distinct (as @ [a])" and "h (last as) = Some pc"
  shows "chain (h(a \<mapsto> \<lparr>segment = s, prev = Some (last as), nxt = None\<rparr>,
                   last as \<mapsto> pc\<lparr>nxt := Some a\<rparr>))
           p (as @ [a]) (ss @ [s])"
  using assms
proof (induction as arbitrary: p ss)
  case Nil
  then show ?case by simp
next
  case (Cons x xs)
  then obtain t ts where ss: "ss = t # ts" by (cases ss) simp_all
  from Cons.prems(1) ss have hx: "h x = Some \<lparr>segment = t, prev = p, nxt = ptr xs\<rparr>"
    and ch: "chain h (Some x) xs ts" by simp_all
  from Cons.prems(3) have xa: "x \<noteq> a" and xn: "x \<notin> set xs" and d: "distinct (xs @ [a])"
    by auto
  show ?case
  proof (cases xs)
    case Nil
    with ch have "ts = []" by (cases ts) simp_all
    with Nil hx Cons.prems(4) xa show ?thesis by (auto simp: ss)
  next
    case (Cons y ys)
    then have ne: "xs \<noteq> []" by simp
    then have l: "last (x # xs) = last xs" by simp
    from ne xn have xl: "x \<noteq> last xs" using last_in_set by metis
    from Cons.prems(4) l have pc: "h (last xs) = Some pc" by simp
    define h' where "h' = h(a \<mapsto> \<lparr>segment = s, prev = Some (last xs), nxt = None\<rparr>,
                      last xs \<mapsto> pc\<lparr>nxt := Some a\<rparr>)"
    have ih: "chain h' (Some x) (xs @ [a]) (ts @ [s])"
      unfolding h'_def by (rule Cons.IH [OF ch ne d pc])
    from ne have pp: "ptr (xs @ [a]) = ptr xs" by (cases xs) simp_all
    from hx xa xl have hx': "h' x = Some \<lparr>segment = t, prev = p, nxt = ptr (xs @ [a])\<rparr>"
      by (simp add: h'_def pp)
    from hx' ih have "chain h' p ((x # xs) @ [a]) (ss @ [s])" by (simp add: ss)
    then show ?thesis by (simp only: h'_def l)
  qed
qed

lemma chain_unsnoc:
  assumes "chain h p (as @ [a]) (ss @ [s])" and "as \<noteq> []" and "distinct (as @ [a])"
    and "h (last as) = Some pc"
  shows "chain (h(last as \<mapsto> pc\<lparr>nxt := None\<rparr>, a := None)) p as ss"
  using assms
proof (induction as arbitrary: p ss)
  case Nil
  then show ?case by simp
next
  case (Cons x xs)
  from Cons.prems(1) have "length ((x # xs) @ [a]) = length (ss @ [s])" by (rule chain_length)
  then obtain t ts where ss: "ss = t # ts" by (cases ss) simp_all
  from Cons.prems(1) ss have hx: "h x = Some \<lparr>segment = t, prev = p, nxt = ptr (xs @ [a])\<rparr>"
    and ch: "chain h (Some x) (xs @ [a]) (ts @ [s])" by simp_all
  from Cons.prems(3) have xa: "x \<noteq> a" and xn: "x \<notin> set xs" and d: "distinct (xs @ [a])"
    by auto
  show ?case
  proof (cases xs)
    case Nil
    with ch have "length [a] = length (ts @ [s])" using chain_length by fastforce
    then have "ts = []" by simp
    with Nil hx Cons.prems(4) xa show ?thesis by (auto simp: ss)
  next
    case (Cons y ys)
    then have ne: "xs \<noteq> []" by simp
    then have l: "last (x # xs) = last xs" by simp
    from ne xn have xl: "x \<noteq> last xs" using last_in_set by metis
    from Cons.prems(4) l have pc: "h (last xs) = Some pc" by simp
    define h' where "h' = h(last xs \<mapsto> pc\<lparr>nxt := None\<rparr>, a := None)"
    have ih: "chain h' (Some x) xs ts"
      unfolding h'_def by (rule Cons.IH [OF ch ne d pc])
    from ne have pp: "ptr (xs @ [a]) = ptr xs" by (cases xs) simp_all
    from hx xa xl have hx': "h' x = Some \<lparr>segment = t, prev = p, nxt = ptr xs\<rparr>"
      by (simp add: h'_def pp)
    from hx' ih have "chain h' p (x # xs) ss" by (simp add: ss)
    then show ?thesis by (simp only: h'_def l)
  qed
qed

lemma chain_last_cell:
  assumes "chain h p (as @ [a]) (ss @ [s])"
  shows "h a = Some \<lparr>segment = s, prev = (if as = [] then p else Some (last as)), nxt = None\<rparr>"
  using assms
proof (induction as arbitrary: p ss)
  case Nil
  from Nil have "length [a] = length (ss @ [s])" using chain_length by fastforce
  then have "ss = []" by simp
  with Nil show ?case by simp
next
  case (Cons x xs)
  from Cons.prems have "length ((x # xs) @ [a]) = length (ss @ [s])" by (rule chain_length)
  then obtain t ts where ss: "ss = t # ts" by (cases ss) simp_all
  from Cons.prems ss have ch: "chain h (Some x) (xs @ [a]) (ts @ [s])" by simp
  from Cons.IH [OF ch] show ?case by (cases xs) simp_all
qed

lemma chain_cell_exists:
  "chain h p as ss \<Longrightarrow> a \<in> set as \<Longrightarrow> \<exists>c. h a = Some c"
  by (induction h p as ss rule: chain.induct) auto

lemma push_segment_stack:
  assumes "path_stack w as ss"
  shows "\<exists>w'. push_segment (Some s) w = Some (Inr ((), w')) \<and>
           path_stack w' (as @ [brk w]) (ss @ [s]) \<and>
           out w' = out w @ [Ev_push_segment (Some s)] \<and> env w' = env w \<and> fails w' = fails w"
proof (cases "as = []")
  case True
  with assms have ss: "ss = []" and f: "path_stack_first w = None" and l: "path_stack_last w = None"
    using chain_length [of "heap w" None as ss] by (simp_all add: path_stack_def)
  define w' where "w' = w\<lparr>out := out w @ [Ev_push_segment (Some s)],
      heap := (heap w)(brk w \<mapsto> \<lparr>segment = s, prev = None, nxt = None\<rparr>),
      brk := Suc (brk w), path_stack_last := Some (brk w), path_stack_first := Some (brk w)\<rparr>"
  have "push_segment (Some s) w = Some (Inr ((), w'))"
    by (simp add: push_segment_def Let_def emit_def f l w'_def)
  moreover have "path_stack w' (as @ [brk w]) (ss @ [s])"
    by (simp add: path_stack_def True ss w'_def)
  moreover have "out w' = out w @ [Ev_push_segment (Some s)]" "env w' = env w" "fails w' = fails w"
    by (simp_all add: w'_def)
  ultimately show ?thesis by (intro exI [of _ w'] conjI)
next
  case False
  from assms have ch: "chain (heap w) None as ss" and d: "distinct as"
    and b: "\<forall>a \<in> set as. a < brk w" and f: "path_stack_first w = ptr as"
    and l: "path_stack_last w = ptr (rev as)"
    by (simp_all add: path_stack_def)
  from False have lin: "last as \<in> set as" by simp
  with b have lb: "last as < brk w" by blast
  from chain_cell_exists [OF ch lin] obtain pc where pc: "heap w (last as) = Some pc" ..
  from False f have f': "path_stack_first w = Some (hd as)" by (cases as) simp_all
  from False l have l': "path_stack_last w = Some (last as)" by (simp add: ptr_rev)
  from b d have d': "distinct (as @ [brk w])" by auto
  define w' where "w' = w\<lparr>out := out w @ [Ev_push_segment (Some s)],
      heap := (heap w)(brk w \<mapsto> \<lparr>segment = s, prev = Some (last as), nxt = None\<rparr>,
                       last as \<mapsto> pc\<lparr>nxt := Some (brk w)\<rparr>),
      brk := Suc (brk w), path_stack_last := Some (brk w)\<rparr>"
  have "push_segment (Some s) w = Some (Inr ((), w'))"
    using lb pc by (simp add: push_segment_def Let_def emit_def f' l' w'_def)
  moreover have "path_stack w' (as @ [brk w]) (ss @ [s])"
  proof -
    have "chain (heap w') None (as @ [brk w]) (ss @ [s])"
      using chain_snoc [OF ch False d' pc, of s] by (simp add: w'_def)
    moreover have "path_stack_first w' = ptr (as @ [brk w])"
      using False f by (cases as) (simp_all add: w'_def)
    moreover have "path_stack_last w' = ptr (rev (as @ [brk w]))"
      by (simp add: w'_def)
    moreover have "\<forall>a \<in> set (as @ [brk w]). a < brk w'"
      using b by (auto simp: w'_def)
    ultimately show ?thesis using d' by (simp only: path_stack_def)
  qed
  moreover have "out w' = out w @ [Ev_push_segment (Some s)]" "env w' = env w" "fails w' = fails w"
    by (simp_all add: w'_def)
  ultimately show ?thesis by (intro exI [of _ w'] conjI)
qed

lemma pop_segment_stack:
  assumes "path_stack w (as @ [a]) (ss @ [s])"
  shows "\<exists>w'. pop_segment w = Some (Inr ((), w')) \<and> path_stack w' as ss \<and>
           out w' = out w @ [Ev_pop_segment] \<and> env w' = env w \<and> fails w' = fails w"
proof -
  from assms have ch: "chain (heap w) None (as @ [a]) (ss @ [s])" and d: "distinct (as @ [a])"
    and b: "\<forall>x \<in> set (as @ [a]). x < brk w" and f: "path_stack_first w = ptr (as @ [a])"
    and l: "path_stack_last w = Some a"
    by (simp_all add: path_stack_def)
  have cell: "heap w a =
      Some \<lparr>segment = s, prev = (if as = [] then None else Some (last as)), nxt = None\<rparr>"
    by (rule chain_last_cell [OF ch])
  show ?thesis
  proof (cases "as = []")
    case True
    from ch True have "length [a] = length (ss @ [s])" using chain_length by fastforce
    then have ss: "ss = []" by simp
    define w' where "w' = w\<lparr>out := out w @ [Ev_pop_segment], path_stack_first := None,
        path_stack_last := None, heap := (heap w)(a := None)\<rparr>"
    have "pop_segment w = Some (Inr ((), w'))"
      using True f l cell by (simp add: pop_segment_def Let_def emit_def w'_def)
    moreover have "path_stack w' as ss"
      by (simp add: path_stack_def True ss w'_def)
    moreover have "out w' = out w @ [Ev_pop_segment]" "env w' = env w" "fails w' = fails w"
      by (simp_all add: w'_def)
    ultimately show ?thesis by (intro exI [of _ w'] conjI)
  next
    case False
    then have lin: "last as \<in> set as" by simp
    with d have la: "last as \<noteq> a" by auto
    from chain_cell_exists [OF ch, of "last as"] lin obtain pc where
      pc: "heap w (last as) = Some pc" by auto
    from False f have f': "path_stack_first w = Some (hd as)" by (cases as) simp_all
    from False d have ha: "hd as \<noteq> a" by (cases as) auto
    define w' where "w' = w\<lparr>out := out w @ [Ev_pop_segment],
        path_stack_last := Some (last as),
        heap := (heap w)(last as \<mapsto> pc\<lparr>nxt := None\<rparr>, a := None)\<rparr>"
    have "pop_segment w = Some (Inr ((), w'))"
      using False f' ha l cell pc la by (simp add: pop_segment_def Let_def emit_def w'_def)
    moreover have "path_stack w' as ss"
    proof -
      have "chain (heap w') None as ss"
        using chain_unsnoc [OF ch False d pc] by (simp add: w'_def)
      moreover have "path_stack_first w' = ptr as"
        using False f by (cases as) (simp_all add: w'_def)
      moreover have "path_stack_last w' = ptr (rev as)"
        using False by (simp add: w'_def ptr_rev)
      moreover have "\<forall>x \<in> set as. x < brk w'"
        using b by (auto simp: w'_def)
      moreover from d have "distinct as" by simp
      ultimately show ?thesis by (simp only: path_stack_def)
    qed
    moreover have "out w' = out w @ [Ev_pop_segment]" "env w' = env w" "fails w' = fails w"
      by (simp_all add: w'_def)
    ultimately show ?thesis by (intro exI [of _ w'] conjI)
  qed
qed

subsection \<open>The current path of a stack\<close>

lemma initial_world_stack: "path_stack (initial_world e) [] []"
  by (simp add: path_stack_def initial_world_def)

lemma empty_stack: "path_stack_first w = None \<Longrightarrow> path_stack_last w = None \<Longrightarrow> path_stack w [] []"
  by (simp add: path_stack_def)

lemma push_all_stack:
  "path_stack w as ss \<Longrightarrow>
   \<exists>w' as'. push_all names w = Some (Inr ((), w')) \<and> path_stack w' as' (ss @ names) \<and>
     env w' = env w \<and> fails w' = fails w"
proof (induction names arbitrary: w as ss)
  case Nil
  then have "push_all [] w = Some (Inr ((), w)) \<and> path_stack w as (ss @ []) \<and>
     env w = env w \<and> fails w = fails w" by simp
  then show ?case by (intro exI)
next
  case (Cons n names)
  from push_segment_stack [OF Cons.prems, of n] obtain w1 where
    w1: "push_segment (Some n) w = Some (Inr ((), w1))"
      "path_stack w1 (as @ [brk w]) (ss @ [n])" "env w1 = env w" "fails w1 = fails w"
    by (elim exE conjE)
  from Cons.IH [OF w1(2)] obtain w' as' where
    w': "push_all names w1 = Some (Inr ((), w'))" "path_stack w' as' ((ss @ [n]) @ names)"
      "env w' = env w1" "fails w' = fails w1"
    by (elim exE conjE)
  have "push_all (n # names) w = Some (Inr ((), w')) \<and> path_stack w' as' (ss @ n # names) \<and>
     env w' = env w \<and> fails w' = fails w"
    using w1 w' by simp
  then show ?case by (intro exI)
qed

lemma pop_times_stack:
  "path_stack w as ss \<Longrightarrow> k \<le> length ss \<Longrightarrow>
   \<exists>w' as'. pop_times k w = Some (Inr ((), w')) \<and> path_stack w' as' (take (length ss - k) ss) \<and>
     env w' = env w \<and> fails w' = fails w"
proof (induction k arbitrary: w as ss)
  case 0
  then have "pop_times 0 w = Some (Inr ((), w)) \<and> path_stack w as (take (length ss - 0) ss) \<and>
     env w = env w \<and> fails w = fails w" by simp
  then show ?case by (intro exI)
next
  case (Suc k)
  from Suc.prems(2) have ne: "ss \<noteq> []" by auto
  from Suc.prems(1) have "length as = length ss"
    by (auto simp: path_stack_def dest: chain_length)
  with ne have ne': "as \<noteq> []" by auto
  from ne ne' have e: "as = butlast as @ [last as]" "ss = butlast ss @ [last ss]" by simp_all
  from Suc.prems(1) have "path_stack w (butlast as @ [last as]) (butlast ss @ [last ss])"
    using e by simp
  from pop_segment_stack [OF this] obtain w1 where
    w1: "pop_segment w = Some (Inr ((), w1))" "path_stack w1 (butlast as) (butlast ss)"
      "env w1 = env w" "fails w1 = fails w"
    by (elim exE conjE)
  from Suc.prems(2) have k: "k \<le> length (butlast ss)" by simp
  from Suc.IH [OF w1(2) k] obtain w' as' where
    w': "pop_times k w1 = Some (Inr ((), w'))"
      "path_stack w' as' (take (length (butlast ss) - k) (butlast ss))"
      "env w' = env w1" "fails w' = fails w1"
    by (elim exE conjE)
  have t: "take (length (butlast ss) - k) (butlast ss) = take (length ss - Suc k) ss"
  proof -
    from ne have "length ss - Suc k < length ss" by (cases ss) simp_all
    then have "take (length ss - Suc k) (butlast ss) = take (length ss - Suc k) ss"
      by (rule take_butlast)
    then show ?thesis by simp
  qed
  from w'(2) have ps: "path_stack w' as' (take (length ss - Suc k) ss)"
    by (simp only: t)
  have "pop_times (Suc k) w = Some (Inr ((), w')) \<and>
     path_stack w' as' (take (length ss - Suc k) ss) \<and> env w' = env w \<and> fails w' = fails w"
    using w1(1,3,4) w'(1,3,4) ps by simp
  then show ?case by (intro exI)
qed

lemma path_of_joined:
  assumes "length (joined ss) \<le> L" and "\<forall>s \<in> set ss. cstring s"
  shows "path_of L ss = Inr (joined ss)"
  by (rule path_of_fits [OF assms])

lemma returned_simps [simp]:
  "returned None = None"
  "returned (Some (Inl x)) = None"
  "returned (Some (Inr (a, w))) = Some a"
  by (simp_all add: returned_def)

lemma failure_simps [simp]:
  "failure None = None"
  "failure (Some (Inl (e, w))) = Some e"
  "failure (Some (Inr y)) = None"
  by (simp_all add: failure_def)

lemma final_world_simps [simp]:
  "final_world None = None"
  "final_world (Some (Inl (e, w))) = Some w"
  "final_world (Some (Inr (a, w))) = Some w"
  by (simp_all add: final_world_def)

lemma returned_lift_pure [simp]:
  "returned (lift_pure (Inr x) w) = Some x"
  "returned (lift_pure (Inl e) w) = None"
  "failure (lift_pure (Inl e) w) = Some e"
  "failure (lift_pure (Inr x) w) = None"
  by simp_all

text \<open>
  Claim C2, as amended. Start with an empty stack, push the names in order and pop \<open>k\<close>
  of them again. When what is left, each segment followed by a separator, fits into
  \<open>PATH_MAX\<close> bytes, \<open>current_path\<close> returns exactly that: the segments in push
  order, each followed by \<open>/\<close>, and the empty string when nothing is left. (The names
  are C strings.) For \<open>a\<close>, \<open>b\<close>, \<open>c\<close> this gives \<open>a/b/c/\<close>, after one pop
  \<open>a/b/\<close>, after three pops the empty string.
\<close>

theorem current_path_joins:
  assumes "path_stack_first w0 = None" and "path_stack_last w0 = None"
    and "\<forall>s \<in> set names. cstring s" and "k \<le> length names"
    and "length (joined (take (length names - k) names)) \<le> PATH_MAX sys"
  shows "returned (then_do (push_all names w0) (\<lambda>_ w. then_do (pop_times k w) (\<lambda>_. current_path sys)))
         = Some (joined (take (length names - k) names))"
proof -
  from empty_stack [OF assms(1,2)] have "path_stack w0 [] []" .
  from push_all_stack [OF this, of names] obtain w1 as1 where
    w1: "push_all names w0 = Some (Inr ((), w1))" "path_stack w1 as1 names"
    by auto
  from pop_times_stack [OF w1(2) assms(4)] obtain w2 as2 where
    w2: "pop_times k w1 = Some (Inr ((), w2))" "path_stack w2 as2 (take (length names - k) names)"
    by (elim exE conjE)
  from current_path_stack [OF w2(2), of sys] obtain evs where
    cp: "current_path sys w2 =
      lift_pure (path_of (PATH_MAX sys) (take (length names - k) names)) (w2\<lparr>out := out w2 @ evs\<rparr>)"
    by (elim exE conjE)
  from assms(3) have "\<forall>s \<in> set (take (length names - k) names). cstring s"
    by (auto dest: in_set_takeD)
  from path_of_fits [OF assms(5) this]
  have "path_of (PATH_MAX sys) (take (length names - k) names) =
        Inr (joined (take (length names - k) names))" .
  with cp w1(1) w2(1) show ?thesis by simp
qed

lemma length_joined_replicate: "length (joined (replicate n s)) = n * (length s + 1)"
  by (induction n) (simp_all add: joined_Cons)

lemma replicate_snoc: "replicate (Suc n) x = replicate n x @ [x]"
  by (simp add: replicate_append_same)

lemma cstring_long_segment: "cstring long_segment"
  by (simp add: cstring_def long_segment_def NUL_def)

lemma length_long_segment: "length long_segment = 255"
  by (simp add: long_segment_def)

lemma PATH_MAX_quiet: "PATH_MAX quiet_system = 4096"
  by (simp add: quiet_system_def)

lemma current_path_after_pushes:
  "\<exists>w evs. then_do (push_all names (initial_world e)) (\<lambda>_. current_path sys) =
     lift_pure (path_of (PATH_MAX sys) names) w"
proof -
  from push_all_stack [OF initial_world_stack, of names e] obtain w1 as1 where
    w1: "push_all names (initial_world e) = Some (Inr ((), w1))" "path_stack w1 as1 names"
    by auto
  from current_path_stack [OF w1(2), of sys] obtain evs where
    "current_path sys w1 = lift_pure (path_of (PATH_MAX sys) names) (w1\<lparr>out := out w1 @ evs\<rparr>)"
    by (elim exE conjE)
  with w1(1) have "then_do (push_all names (initial_world e)) (\<lambda>_. current_path sys) =
     lift_pure (path_of (PATH_MAX sys) names) (w1\<lparr>out := out w1 @ evs\<rparr>)"
    by simp
  then show ?thesis by (intro exI)
qed

theorem current_path_joins_witness:
  "returned (then_do (push_all [''a'', ''b'', ''c''] (initial_world ()))
      (\<lambda>_ w. then_do (pop_times 0 w) (\<lambda>_. current_path quiet_system))) = Some ''a/b/c/'' \<and>
   returned (then_do (push_all [''a'', ''b'', ''c''] (initial_world ()))
      (\<lambda>_ w. then_do (pop_times 1 w) (\<lambda>_. current_path quiet_system))) = Some ''a/b/'' \<and>
   returned (then_do (push_all [''a'', ''b'', ''c''] (initial_world ()))
      (\<lambda>_ w. then_do (pop_times 3 w) (\<lambda>_. current_path quiet_system))) = Some ''''"
proof -
  have f: "path_stack_first (initial_world ()) = None" and l: "path_stack_last (initial_world ()) = None"
    by (simp_all add: initial_world_def)
  have c: "\<forall>s \<in> set [''a'', ''b'', ''c'']. cstring s"
    by (simp add: cstring_def NUL_def)
  have j0: "joined (take (length [''a'', ''b'', ''c''] - 0) [''a'', ''b'', ''c'']) = ''a/b/c/''"
    and j1: "joined (take (length [''a'', ''b'', ''c''] - 1) [''a'', ''b'', ''c'']) = ''a/b/''"
    and j3: "joined (take (length [''a'', ''b'', ''c''] - 3) [''a'', ''b'', ''c'']) = ''''"
    by (simp_all add: joined_def)
  have "returned (then_do (push_all [''a'', ''b'', ''c''] (initial_world ()))
      (\<lambda>_ w. then_do (pop_times 0 w) (\<lambda>_. current_path quiet_system))) = Some ''a/b/c/''"
    using current_path_joins [OF f l c, of 0 quiet_system] unfolding j0
    by (simp add: PATH_MAX_quiet)
  moreover have "returned (then_do (push_all [''a'', ''b'', ''c''] (initial_world ()))
      (\<lambda>_ w. then_do (pop_times 1 w) (\<lambda>_. current_path quiet_system))) = Some ''a/b/''"
    using current_path_joins [OF f l c, of 1 quiet_system] unfolding j1
    by (simp add: PATH_MAX_quiet)
  moreover have "returned (then_do (push_all [''a'', ''b'', ''c''] (initial_world ()))
      (\<lambda>_ w. then_do (pop_times 3 w) (\<lambda>_. current_path quiet_system))) = Some ''''"
    using current_path_joins [OF f l c, of 3 quiet_system] unfolding j3
    by (simp add: PATH_MAX_quiet)
  ultimately show ?thesis by (intro conjI)
qed

lemma path_of_17: "path_of 4096 (replicate 17 long_segment) =
    Inr (take 4096 (joined (replicate 17 long_segment)))"
proof -
  have a: "length (joined (replicate 16 long_segment)) \<le> 4096"
    by (simp add: length_joined_replicate length_long_segment)
  have b: "4096 \<le> length (joined (replicate 16 long_segment)) + length long_segment"
    by (simp add: length_joined_replicate length_long_segment)
  have c: "\<forall>x \<in> set (replicate 16 long_segment @ [long_segment]). cstring x"
    by (simp add: cstring_long_segment)
  have r: "replicate 17 long_segment = replicate 16 long_segment @ [long_segment]"
    using replicate_snoc [of 16 long_segment] by simp
  show ?thesis
    unfolding r by (rule path_of_truncates [OF a b c])
qed

text \<open>
  Claim C2 as stated, for every stack, fails: with 17 nested folders of 255 bytes each and
  \<open>PATH_MAX = 4096\<close> the joined path has 4352 bytes and \<open>current_path\<close> returns
  its first 4096 bytes only.
\<close>

theorem current_path_joins_every_stack_counterexample:
  "returned (then_do (push_all (replicate 17 long_segment) (initial_world ()))
      (\<lambda>_. current_path quiet_system)) \<noteq> Some (joined (replicate 17 long_segment))"
proof -
  from current_path_after_pushes [of "replicate 17 long_segment" "()" quiet_system]
  obtain w where "then_do (push_all (replicate 17 long_segment) (initial_world ()))
      (\<lambda>_. current_path quiet_system) =
     lift_pure (path_of 4096 (replicate 17 long_segment)) w"
    by (auto simp: PATH_MAX_quiet)
  then have "returned (then_do (push_all (replicate 17 long_segment) (initial_world ()))
      (\<lambda>_. current_path quiet_system)) = Some (take 4096 (joined (replicate 17 long_segment)))"
    by (simp add: path_of_17)
  moreover have "length (take 4096 (joined (replicate 17 long_segment))) \<noteq>
      length (joined (replicate 17 long_segment))"
    by (simp add: length_joined_replicate length_long_segment)
  ultimately show ?thesis by auto
qed

lemma path_of_18: "path_of 4096 (replicate 18 long_segment) = Inl (OutOfBounds 4097)"
proof -
  have a: "length (joined (replicate 16 long_segment)) \<le> 4096"
    by (simp add: length_joined_replicate length_long_segment)
  have b: "4096 \<le> length (joined (replicate 16 long_segment)) + length long_segment"
    by (simp add: length_joined_replicate length_long_segment)
  have "replicate 18 long_segment = replicate (16 + 2) long_segment" by simp
  also have "\<dots> = replicate 16 long_segment @ replicate 2 long_segment"
    by (rule replicate_add)
  also have "replicate 2 long_segment = long_segment # long_segment # []"
    by (simp add: numeral_2_eq_2)
  finally have r: "replicate 18 long_segment =
    replicate 16 long_segment @ long_segment # long_segment # []" .
  show ?thesis
    unfolding r using path_of_overflow [OF a b, of long_segment "[]"] by simp
qed

text \<open>
  Claim C1 fails on the code. With 18 nested folders of 255 bytes each and
  \<open>PATH_MAX = 4096\<close> (a joined path of 4608 bytes), \<open>current_path\<close> stores the
  separator of the 18th segment at index 4097 of its buffer of 4097 bytes (indices 0 to
  4096): the store \<open>*b++ = '/'\<close> is not guarded by \<open>b < last_char\<close>.
\<close>

theorem current_path_writes_outside:
  "failure (then_do (push_all (replicate 18 long_segment) (initial_world ()))
      (\<lambda>_. current_path quiet_system)) = Some (OutOfBounds 4097) \<and>
   PATH_MAX quiet_system + 1 = 4097 \<and>
   length (joined (replicate 18 long_segment)) = 4608"
proof -
  from current_path_after_pushes [of "replicate 18 long_segment" "()" quiet_system]
  obtain w where "then_do (push_all (replicate 18 long_segment) (initial_world ()))
      (\<lambda>_. current_path quiet_system) =
     lift_pure (path_of 4096 (replicate 18 long_segment)) w"
    by (auto simp: PATH_MAX_quiet)
  then have "failure (then_do (push_all (replicate 18 long_segment) (initial_world ()))
      (\<lambda>_. current_path quiet_system)) = Some (OutOfBounds 4097)"
    by (simp add: path_of_18)
  moreover have "PATH_MAX quiet_system + 1 = 4097" by (simp add: PATH_MAX_quiet)
  moreover have "length (joined (replicate 18 long_segment)) = 4608"
    by (simp add: length_joined_replicate length_long_segment)
  ultimately show ?thesis by (intro conjI)
qed

lemma pop_segment_empty:
  "path_stack_last w = None \<Longrightarrow> pop_segment w = Some (Inl (NullDeref, emit Ev_pop_segment w))"
  by (cases "path_stack_first w") (simp_all add: pop_segment_def Let_def emit_def)

lemma trace_simps [simp]:
  "trace None = []"
  "trace (Some (Inl (e, w))) = out w"
  "trace (Some (Inr (a, w))) = out w"
  by (simp_all add: trace_def)

subsection \<open>What \<open>current_path\<close> does to the state\<close>

lemma world_of_simps [simp]:
  "world_of (Inl (x, w)) = w"
  "world_of (Inr (a, w)) = w"
  by (simp_all add: world_of_def)

lemma prints_only_refl: "prints_only w w"
  unfolding prints_only_def by (rule exI [of _ "[]"]) simp

lemma prints_only_emit:
  assumes "is_print ev" and "prints_only (emit ev w) w'"
  shows "prints_only w w'"
proof -
  from assms(2) obtain evs where e: "list_all is_print evs" "w' = (emit ev w)\<lparr>out := out (emit ev w) @ evs\<rparr>"
    unfolding prints_only_def by (elim exE conjE)
  show ?thesis unfolding prints_only_def
    by (rule exI [of _ "ev # evs"]) (simp add: e assms(1) emit_def)
qed

lemma path_loop_prints:
  assumes "path_loop L seg bb w = Some y"
  shows "prints_only w (world_of y)"
proof (rule path_loop.raw_induct [where P = "\<lambda>L seg bb w y. prints_only w (world_of y)", OF _ assms])
  fix pl :: "nat \<Rightarrow> addr option \<Rightarrow> char list \<times> nat \<Rightarrow> 'a world \<Rightarrow> (char list \<times> nat, 'a) result"
  fix L seg bb w y
  assume IH: "\<And>L seg bb w y. pl L seg bb w = Some y \<Longrightarrow> prints_only w (world_of y)"
  assume body: "(case seg of
       None \<Rightarrow> Some (Inr (bb, w))
     | Some a \<Rightarrow>
         (case heap w a of
            None \<Rightarrow> Some (Inl (InvalidPointer a, w))
          | Some cell \<Rightarrow>
              (case copy_segment L (segment cell) bb of
                 Inl e \<Rightarrow> Some (Inl (e, w))
               | Inr (bytes, b) \<Rightarrow>
                   (case store b CHR ''/'' bytes of
                      None \<Rightarrow> Some (Inl (OutOfBounds b, w))
                    | Some bytes' \<Rightarrow>
                        pl L (nxt cell) (bytes', Suc b)
                          (emit (Printf ''BUF %s segment %s\<newline>''
                                   [buf_arg bytes', S (segment cell)]) w))))) = Some y"
  show "prints_only w (world_of y)"
  proof (cases seg)
    case None
    with body show ?thesis by (auto simp: prints_only_refl)
  next
    case (Some a)
    show ?thesis
    proof (cases "heap w a")
      case None
      with body Some show ?thesis by (auto simp: prints_only_refl)
    next
      case (Some cell)
      note cell = this
      show ?thesis
      proof (cases "copy_segment L (segment cell) bb")
        case (Inl e)
        with body \<open>seg = Some a\<close> cell show ?thesis by (auto simp: prints_only_refl)
      next
        case (Inr p)
        obtain bytes b where p: "p = (bytes, b)" by (cases p)
        show ?thesis
        proof (cases "store b CHR ''/'' bytes")
          case None
          with body \<open>seg = Some a\<close> cell Inr p show ?thesis by (auto simp: prints_only_refl)
        next
          case (Some bytes')
          with body \<open>seg = Some a\<close> cell Inr p
          have "pl L (nxt cell) (bytes', Suc b)
                  (emit (Printf ''BUF %s segment %s\<newline>'' [buf_arg bytes', S (segment cell)]) w) = Some y"
            by simp
          from IH [OF this] show ?thesis by (rule prints_only_emit [rotated]) simp
        qed
      qed
    qed
  qed
qed

lemma current_path_prints:
  assumes "current_path sys w = Some y"
  shows "prints_only w (world_of y)"
proof (cases "count_segments (heap w) (path_stack_first w) 0")
  case None
  with assms show ?thesis by (simp add: current_path_def current_path_len_def)
next
  case (Some c)
  show ?thesis
  proof (cases c)
    case (Inl e)
    with assms Some show ?thesis
      by (auto simp: current_path_def current_path_len_def prints_only_refl)
  next
    case (Inr n)
    let ?w1 = "emit (Printf ''PATHLEN %i\<newline>'' [I n]) w"
    let ?m = "path_loop (PATH_MAX sys) (path_stack_first w) (replicate (PATH_MAX sys + 1) NUL, 0) ?w1"
    show ?thesis
    proof (cases ?m)
      case None
      with assms Some Inr show ?thesis
        by (simp add: current_path_def current_path_len_def Let_def)
    next
      case (Some y1)
      from path_loop_prints [OF Some] have p1: "prints_only ?w1 (world_of y1)" .
      have "world_of y = world_of y1"
        using assms \<open>count_segments (heap w) (path_stack_first w) 0 = Some c\<close> Inr Some
        by (cases y1)
          (auto simp: current_path_def current_path_len_def Let_def split: option.splits prod.splits)
      with prints_only_emit [OF _ p1] show ?thesis by simp
    qed
  qed
qed

subsection \<open>The decision to copy\<close>

lemma path_stack_out [simp]: "path_stack (w\<lparr>out := x\<rparr>) as ss = path_stack w as ss"
  by (simp add: path_stack_def)

lemma path_stack_env [simp]: "path_stack (w\<lparr>env := x\<rparr>) as ss = path_stack w as ss"
  by (simp add: path_stack_def)

lemma path_stack_fails [simp]: "path_stack (w\<lparr>fails := x\<rparr>) as ss = path_stack w as ss"
  by (simp add: path_stack_def)

lemma path_stack_emit [simp]: "path_stack (emit ev w) as ss = path_stack w as ss"
  by (simp add: emit_def)

lemma current_path_returned:
  assumes "returned (current_path sys w) = Some path"
  shows "\<exists>evs. list_all is_print evs \<and>
     current_path sys w = Some (Inr (path, w\<lparr>out := out w @ evs\<rparr>))"
proof -
  from assms obtain w1 where cp: "current_path sys w = Some (Inr (path, w1))"
    by (auto simp: returned_def split: option.splits sum.splits)
  from current_path_prints [OF cp] show ?thesis
    by (simp add: prints_only_def cp)
qed

lemma should_copy_eq: "should_copy sys file w = then_do (current_path sys w) (stat_decision sys file)"
  unfolding should_copy_def stat_decision_def [abs_def] by (rule refl)

lemma should_copy_after_path:
  assumes "returned (current_path sys w) = Some path"
  shows "\<exists>evs. list_all is_print evs \<and>
     should_copy sys file w = stat_decision sys file path (w\<lparr>out := out w @ evs\<rparr>)"
proof -
  from current_path_returned [OF assms] obtain evs where
    evs: "list_all is_print evs"
      "current_path sys w = Some (Inr (path, w\<lparr>out := out w @ evs\<rparr>))"
    by (elim exE conjE)
  then have "list_all is_print evs \<and>
     should_copy sys file w = stat_decision sys file path (w\<lparr>out := out w @ evs\<rparr>)"
    by (simp add: should_copy_eq)
  then show ?thesis by (rule exI)
qed

lemma current_path_empty:
  "path_stack_first w = None \<Longrightarrow>
   current_path sys w = Some (Inr ([], emit (Printf ''PATHLEN %i\<newline>'' [I 0]) w))"
  by (simp add: current_path_def current_path_len_def count_segments_None path_loop_None
      store_def c_str_def Let_def NUL_def)

lemma current_path_initial: "returned (current_path sys (initial_world e)) = Some []"
  by (simp add: current_path_empty initial_world_def)

lemma nested_world_stack:
  "\<exists>as. path_stack (nested_world k) as (replicate k long_segment) \<and> env (nested_world k) = ()"
proof -
  from push_all_stack [OF initial_world_stack, of "replicate k long_segment" "()"] obtain w1 as1 where
    w1: "push_all (replicate k long_segment) (initial_world ()) = Some (Inr ((), w1))"
      "path_stack w1 as1 (replicate k long_segment)"
    by auto
  then have "path_stack (nested_world k) as1 (replicate k long_segment) \<and> env (nested_world k) = ()"
    by (simp add: nested_world_def)
  then show ?thesis by (rule exI)
qed

lemma current_path_nested_17:
  assumes "PATH_MAX sys = 4096"
  shows "returned (current_path sys (nested_world 17)) =
    Some (take 4096 (joined (replicate 17 long_segment)))"
proof -
  from nested_world_stack [of 17] obtain as where
    ps: "path_stack (nested_world 17) as (replicate 17 long_segment)" by (elim exE conjE)
  from current_path_stack [OF ps, of sys] obtain evs where
    "current_path sys (nested_world 17) =
      lift_pure (path_of (PATH_MAX sys) (replicate 17 long_segment))
        ((nested_world 17)\<lparr>out := out (nested_world 17) @ evs\<rparr>)"
    by (elim exE conjE)
  then show ?thesis by (simp add: assms path_of_17)
qed

lemma sint_nonneg_uint:
  fixes x :: "64 word"
  assumes "0 \<le> sint x"
  shows "sint x = uint x"
proof -
  have "sint x < 2 ^ (LENGTH(64) - Suc 0)" by (rule sint_less)
  then have "sint x < 2 ^ 64" by simp
  with assms have "take_bit 64 (sint x) = sint x" by (rule take_bit_int_eq_self)
  moreover have "uint x = take_bit LENGTH(64) (sint x)" by (rule uint_sint)
  ultimately show ?thesis by simp
qed

lemma size_compare:
  fixes st_size fsz :: "64 word"
  assumes "0 \<le> sint st_size"
  shows "(st_size \<noteq> fsz) = (sint st_size \<noteq> uint fsz)"
  using sint_nonneg_uint [OF assms] by (simp add: word_uint_eq_iff)

lemma stat_decision_enoent:
  assumes "filename file = Some fname" and "sys_stat sys fname (env w1) = (-1, st_size, e1)"
    and "sys_errno sys e1 = ENOENT"
  shows "stat_decision sys file path w1 =
    Some (Inr (1, emit (Printf ''STAT(%s)->ENOENT\<newline>'' [S fname])
                    ((emit (Ev_stat fname) w1)\<lparr>env := e1\<rparr>)))"
  using assms by (simp add: stat_decision_def)

lemma stat_decision_exists:
  assumes "filename file = Some fname" and "sys_stat sys fname (env w1) = (r, st_size, e1)"
    and "r \<noteq> -1"
  shows "stat_decision sys file path w1 =
    Some (Inr (if st_size \<noteq> filesize file then 1 else 0,
       emit (Printf ''compare: %s (%s) : %li ==  %lu\<newline>''
               [S fname, S (path @ fname), I (sint st_size), I (uint (filesize file))])
         ((emit (Ev_stat fname) w1)\<lparr>env := e1\<rparr>)))"
  using assms by (simp add: stat_decision_def)

lemma stat_decision_fatal:
  assumes "filename file = Some fname" and "sys_stat sys fname (env w1) = (-1, st_size, e1)"
    and "sys_errno sys e1 \<noteq> ENOENT"
  shows "stat_decision sys file path w1 =
    Some (Inl (Exit (sys_errno sys (sys_fprintf sys e1)),
       (emit (Printf ''couldn't stat %s (%s) and errno is not ENOENT: %i\<newline>''
               [S fname, S (path @ fname), I (sys_errno sys e1)])
         ((emit (Ev_stat fname) w1)\<lparr>env := e1\<rparr>))\<lparr>env := sys_fprintf sys e1\<rparr>))"
  using assms by (simp add: stat_decision_def Let_def)

lemma emit_twice:
  "(emit ev2 ((emit ev1 (w\<lparr>out := out w @ evs\<rparr>))\<lparr>env := e\<rparr>))\<lparr>env := e'\<rparr> =
   w\<lparr>out := out w @ evs @ [ev1, ev2], env := e'\<rparr>"
  by (simp add: emit_def)

text \<open>
  Claim C3. For an entry with a name, in every state in which the call of
  \<open>current_path\<close> at the start of \<open>should_copy\<close> returns (whatever the stack holds,
  also when the path is cut at \<open>PATH_MAX\<close> bytes): if \<open>stat\<close> on the name fails with
  \<open>ENOENT\<close>, \<open>should_copy\<close> returns 1 (true); if \<open>stat\<close> succeeds, \<open>should_copy\<close>
  returns 1 when the local size \<open>st_size\<close> differs from the declared \<open>filesize\<close> and
  0 when they are equal.
\<close>

theorem should_copy_decision:
  assumes "returned (current_path sys w) = Some path" and "filename file = Some fname"
    and "sys_stat sys fname (env w) = (r, st_size, e1)"
  shows "(r = -1 \<and> sys_errno sys e1 = ENOENT \<longrightarrow> returned (should_copy sys file w) = Some 1) \<and>
         (r \<noteq> -1 \<and> 0 \<le> sint st_size \<longrightarrow>
            returned (should_copy sys file w) =
              Some (if sint st_size \<noteq> uint (filesize file) then 1 else 0))"
proof -
  from should_copy_after_path [OF assms(1), of "file"] obtain evs where
    sc: "should_copy sys file w = stat_decision sys file path (w\<lparr>out := out w @ evs\<rparr>)"
    by (elim exE conjE)
  let ?w1 = "w\<lparr>out := out w @ evs\<rparr>"
  from assms(3) have st: "sys_stat sys fname (env ?w1) = (r, st_size, e1)" by simp
  have a: "returned (should_copy sys file w) = Some 1" if "r = -1" "sys_errno sys e1 = ENOENT"
    using stat_decision_enoent [OF assms(2) st [unfolded that(1)] that(2), of path]
    by (simp add: sc)
  have b: "returned (should_copy sys file w) =
      Some (if sint st_size \<noteq> uint (filesize file) then 1 else 0)"
    if "r \<noteq> -1" "0 \<le> sint st_size"
    using stat_decision_exists [OF assms(2) st that(1), of path]
      size_compare [OF that(2), of "filesize file"]
    by (simp add: sc)
  from a b show ?thesis by (intro conjI impI) (elim conjE, assumption+)+
qed

theorem should_copy_decision_witness:
  "returned (should_copy quiet_system example_file (initial_world ())) = Some 1 \<and>
   returned (should_copy (local_file_system 100) example_file (initial_world ())) = Some 0 \<and>
   returned (should_copy (local_file_system 101) example_file (initial_world ())) = Some 1 \<and>
   returned (should_copy quiet_system example_file (nested_world 17)) = Some 1"
proof -
  have fn: "filename example_file = Some ''a.txt''" by (simp add: example_file_def)
  have s1: "sys_stat quiet_system ''a.txt'' (env (initial_world ())) = (-1, 0, ())"
    by (simp add: quiet_system_def)
  have e1: "sys_errno quiet_system () = ENOENT" by (simp add: quiet_system_def)
  have s2: "sys_stat (local_file_system 100) ''a.txt'' (env (initial_world ())) = (0, 100, ())"
    by (simp add: local_file_system_def)
  have s3: "sys_stat (local_file_system 101) ''a.txt'' (env (initial_world ())) = (0, 101, ())"
    by (simp add: local_file_system_def)
  have s4: "sys_stat quiet_system ''a.txt'' (env (nested_world 17)) = (-1, 0, ())"
    by (simp add: quiet_system_def)
  have sz: "filesize example_file = 100" by (simp add: example_file_def)
  from should_copy_decision [OF current_path_initial fn s1] e1
  have "returned (should_copy quiet_system example_file (initial_world ())) = Some 1"
    by simp
  moreover from should_copy_decision [OF current_path_initial fn s2]
  have "returned (should_copy (local_file_system 100) example_file (initial_world ())) = Some 0"
    by (simp add: sz)
  moreover from should_copy_decision [OF current_path_initial fn s3]
  have "returned (should_copy (local_file_system 101) example_file (initial_world ())) = Some 1"
    by (simp add: sz)
  moreover from should_copy_decision [OF current_path_nested_17 [OF PATH_MAX_quiet] fn s4] e1
  have "returned (should_copy quiet_system example_file (nested_world 17)) = Some 1"
    by simp
  ultimately show ?thesis by (intro conjI)
qed

lemma stat_decision_env:
  assumes "env w = env w'" and "filename f = filename f'" and "filesize f = filesize f'"
  shows "returned (stat_decision sys f p w) = returned (stat_decision sys f' p' w') \<and>
         failure (stat_decision sys f p w) = failure (stat_decision sys f' p' w')"
proof (cases "filename f")
  case None
  with assms(2) show ?thesis by (simp add: stat_decision_def)
next
  case (Some fname)
  obtain r st_size e1 where st: "sys_stat sys fname (env w) = (r, st_size, e1)"
    by (cases "sys_stat sys fname (env w)")
  with assms have st': "sys_stat sys fname (env w') = (r, st_size, e1)" by simp
  from Some assms(2) have Some': "filename f' = Some fname" by simp
  show ?thesis
    by (simp add: stat_decision_def Some Some' st st' Let_def assms(3))
qed

text \<open>
  Claim C10. The result of \<open>should_copy\<close> (the value it returns, or the way it ends
  the run) is the same in any two states with the same outside world (working directory
  and local files) for entries with the same name and the same declared size, whatever
  the two path stacks hold, as long as \<open>current_path\<close> returns in both: the path only
  goes into the printed report.
\<close>

theorem should_copy_ignores_stack:
  assumes "returned (current_path sys w1) = Some p1" and "returned (current_path sys w2) = Some p2"
    and "env w1 = env w2" and "filename f1 = filename f2" and "filesize f1 = filesize f2"
  shows "returned (should_copy sys f1 w1) = returned (should_copy sys f2 w2) \<and>
         failure (should_copy sys f1 w1) = failure (should_copy sys f2 w2)"
proof -
  from should_copy_after_path [OF assms(1), of f1] obtain evs1 where
    s1: "should_copy sys f1 w1 = stat_decision sys f1 p1 (w1\<lparr>out := out w1 @ evs1\<rparr>)"
    by (elim exE conjE)
  from should_copy_after_path [OF assms(2), of f2] obtain evs2 where
    s2: "should_copy sys f2 w2 = stat_decision sys f2 p2 (w2\<lparr>out := out w2 @ evs2\<rparr>)"
    by (elim exE conjE)
  from assms(3) have "env (w1\<lparr>out := out w1 @ evs1\<rparr>) = env (w2\<lparr>out := out w2 @ evs2\<rparr>)"
    by simp
  from stat_decision_env [OF this assms(4,5), of sys p1 p2]
  show ?thesis by (simp only: s1 s2)
qed

theorem should_copy_ignores_stack_witness:
  "returned (current_path quiet_system (initial_world ())) = Some [] \<and>
   returned (current_path quiet_system (nested_world 17)) =
     Some (take 4096 (joined (replicate 17 long_segment))) \<and>
   returned (should_copy quiet_system example_file (initial_world ())) =
     returned (should_copy quiet_system (example_file\<lparr>item_id := 8\<rparr>) (nested_world 17)) \<and>
   failure (should_copy quiet_system example_file (initial_world ())) =
     failure (should_copy quiet_system (example_file\<lparr>item_id := 8\<rparr>) (nested_world 17))"
proof -
  have e: "env (initial_world ()) = env (nested_world 17)" by simp
  have n: "filename example_file = filename (example_file\<lparr>item_id := 8\<rparr>)"
    and s: "filesize example_file = filesize (example_file\<lparr>item_id := 8\<rparr>)" by simp_all
  from should_copy_ignores_stack [OF current_path_initial current_path_nested_17 [OF PATH_MAX_quiet] e n s]
    current_path_initial [of quiet_system "()"] current_path_nested_17 [OF PATH_MAX_quiet]
  show ?thesis by (intro conjI) (elim conjE, assumption)+
qed

lemma dump_fileinfo_prints:
  "\<exists>evs. list_all is_print evs \<and> dump_fileinfo sys file w = w\<lparr>out := out w @ evs\<rparr>"
proof -
  define e1 where "e1 = Printf ''File ID: %u\<newline>'' [I (uint (item_id file))]"
  define e2 where "e2 = (case filename file of None \<Rightarrow> []
     | Some fname \<Rightarrow> [Printf ''   Filename: %s\<newline>'' [S fname]])"
  define e3 where "e3 = (if filesize file = 0xFFFFFFFF
     then Printf ''   None. (abstract file, size = -1)\<newline>'' []
     else Printf ''   File size %llu (0x%016llX) bytes\<newline>''
            [I (uint (filesize file)), I (uint (filesize file))])"
  define e4 where "e4 = Printf ''   Parent ID: %u\<newline>'' [I (uint (parent_id file))]"
  define e5 where "e5 = Printf ''   Storage ID: 0x%08X\<newline>'' [I (uint (storage_id file))]"
  define e6 where "e6 = Printf ''   Filetype: %s\<newline>''
                [S (Get_Filetype_Description sys (filetype file))]"
  have "dump_fileinfo sys file w = w\<lparr>out := out w @ ([e1] @ e2 @ [e3, e4, e5, e6])\<rparr>"
    by (simp add: dump_fileinfo_def Let_def emit_def e1_def e2_def e3_def e4_def e5_def e6_def
        split: option.split)
  moreover have "list_all is_print ([e1] @ e2 @ [e3, e4, e5, e6])"
    by (simp add: e1_def e2_def e3_def e4_def e5_def e6_def split: option.split)
  ultimately show ?thesis by (intro exI [of _ "[e1] @ e2 @ [e3, e4, e5, e6]"] conjI)
qed

lemma should_copy_fatal:
  assumes "returned (current_path sys w) = Some path" and "filename file = Some fname"
    and "sys_stat sys fname (env w) = (-1, st_size, e1)"
    and "sys_errno sys e1 \<noteq> ENOENT"
  shows "\<exists>evs. list_all is_print evs \<and>
     should_copy sys file w =
       Some (Inl (Exit (sys_errno sys (sys_fprintf sys e1)),
         w\<lparr>out := out w @ evs @
              [Ev_stat fname,
               Printf ''couldn't stat %s (%s) and errno is not ENOENT: %i\<newline>''
                 [S fname, S (path @ fname), I (sys_errno sys e1)]],
           env := sys_fprintf sys e1\<rparr>))"
proof -
  from should_copy_after_path [OF assms(1), of "file"] obtain evs where
    evs: "list_all is_print evs"
    and sc: "should_copy sys file w = stat_decision sys file path (w\<lparr>out := out w @ evs\<rparr>)"
    by (elim exE conjE)
  let ?w1 = "w\<lparr>out := out w @ evs\<rparr>"
  from assms(3) have st: "sys_stat sys fname (env ?w1) = (-1, st_size, e1)" by simp
  have "should_copy sys file w =
       Some (Inl (Exit (sys_errno sys (sys_fprintf sys e1)),
         w\<lparr>out := out w @ evs @
              [Ev_stat fname,
               Printf ''couldn't stat %s (%s) and errno is not ENOENT: %i\<newline>''
                 [S fname, S (path @ fname), I (sys_errno sys e1)]],
           env := sys_fprintf sys e1\<rparr>))"
    unfolding sc stat_decision_fatal [OF assms(2) st assms(4)] emit_twice by (rule refl)
  with evs show ?thesis by (intro exI [of _ evs] conjI)
qed

subsection \<open>Unfolding the traversal\<close>

lemma dump_files_loop_file:
  "filetype file \<noteq> LIBMTP_FILETYPE_FOLDER \<Longrightarrow>
   dump_files_loop n sys storageid (file # rest) w =
     then_do (dump_files_file sys file w)
       (\<lambda>_ w'. dump_files_loop n sys storageid rest (emit (Ev_destroy_file_t (item_id file)) w'))"
  by simp

lemma dump_files_loop_folder:
  "filetype file = LIBMTP_FILETYPE_FOLDER \<Longrightarrow>
   dump_files_loop n sys storageid (file # rest) w =
    then_do
      (then_do
              (pushdir sys (filename file)
                 (emit (Printf ''ENTER DIRECTORY:%s\<newline>'' [str_arg (filename file)]) w))
              (\<lambda>_ w1.
            then_do (current_path sys w1) (\<lambda>s w2.
            then_do
              (dump_files n sys storageid (item_id file)
                 (emit (Printf ''CURRENT_PATH after entering %s is %s\<newline>''
                          [str_arg (filename file), S s]) w2))
              (\<lambda>_ w3.
            then_do
              (popdir sys
                 (emit (Printf ''LEAVE DIRECTORY:%s\<newline>'' [str_arg (filename file)]) w3))
              (\<lambda>_ w4.
            then_do (current_path sys w4) (\<lambda>s' w5.
              Some (Inr ((), emit (Printf ''CURRENT_PATH after leaving %s is %s\<newline>''
                                     [str_arg (filename file), S s']) w5))))))))
      (\<lambda>_ w'. dump_files_loop n sys storageid rest (emit (Ev_destroy_file_t (item_id file)) w'))"
  by simp

lemma dump_files_loop_Nil: "dump_files_loop n sys storageid [] w = Some (Inr ((), w))"
  by simp

lemma dump_files_Suc:
  "dump_files (Suc n) sys storageid leaf w =
    (let (files, e1) = Get_Files_And_Folders sys storageid leaf (env w);
         w1 = (emit (Ev_Get_Files_And_Folders storageid leaf) w)\<lparr>env := e1\<rparr>
     in if files = []
        then (let w2 = (emit Ev_Dump_Errorstack w1)\<lparr>env := Dump_Errorstack sys (env w1)\<rparr>;
                  w3 = (emit Ev_Clear_Errorstack w2)\<lparr>env := Clear_Errorstack sys (env w2)\<rparr>
              in Some (Inr ((), w3)))
        else dump_files_loop n sys storageid files w1)"
  by simp

lemma dump_files_0: "dump_files 0 sys storageid leaf w = None"
  by simp

lemma then_do_assoc:
  "then_do (then_do m f) g = then_do m (\<lambda>a w. then_do (f a w) g)"
  by (cases m) (auto simp: then_do_def split: sum.split)

lemma then_do_return: "then_do m (\<lambda>a w. Some (Inr (a, w))) = m"
  by (cases m) (auto simp: then_do_def split: sum.split)

lemma dump_files_loop_Cons:
  "dump_files_loop n sys storageid (file # rest) w =
     then_do (dump_files_loop n sys storageid [file] w)
       (\<lambda>_. dump_files_loop n sys storageid rest)"
  by (simp add: then_do_assoc)

declare dump_files.simps [simp del] dump_files_loop.simps [simp del]

lemma dump_files_loop_append:
  "dump_files_loop n sys storageid (xs @ ys) w =
     then_do (dump_files_loop n sys storageid xs w) (\<lambda>_. dump_files_loop n sys storageid ys)"
proof (induction xs arbitrary: w)
  case Nil
  show ?case by (simp add: dump_files_loop_Nil)
next
  case (Cons x xs)
  have "dump_files_loop n sys storageid ((x # xs) @ ys) w =
      then_do (dump_files_loop n sys storageid [x] w)
        (\<lambda>_. dump_files_loop n sys storageid (xs @ ys))"
    using dump_files_loop_Cons [of n sys storageid x "xs @ ys" w] by simp
  also have "\<dots> = then_do (dump_files_loop n sys storageid [x] w)
        (\<lambda>_ w'. then_do (dump_files_loop n sys storageid xs w')
           (\<lambda>_. dump_files_loop n sys storageid ys))"
  proof -
    have "(\<lambda>_::unit. dump_files_loop n sys storageid (xs @ ys)) =
        (\<lambda>_ w'. then_do (dump_files_loop n sys storageid xs w')
           (\<lambda>_. dump_files_loop n sys storageid ys))"
      by (rule ext)+ (rule Cons.IH)
    then show ?thesis by (rule arg_cong)
  qed
  also have "\<dots> = then_do (then_do (dump_files_loop n sys storageid [x] w)
        (\<lambda>_. dump_files_loop n sys storageid xs)) (\<lambda>_. dump_files_loop n sys storageid ys)"
    by (simp only: then_do_assoc)
  also have "then_do (dump_files_loop n sys storageid [x] w)
        (\<lambda>_. dump_files_loop n sys storageid xs) = dump_files_loop n sys storageid (x # xs) w"
    by (rule dump_files_loop_Cons [symmetric])
  finally show ?case .
qed

lemma dump_files_file_abort:
  "should_copy sys file (dump_fileinfo sys file w) = Some (Inl x) \<Longrightarrow>
   dump_files_file sys file w = Some (Inl x)"
  by (simp add: dump_files_file_def)

lemma abort_in_folder_propagates:
  assumes "filetype file = LIBMTP_FILETYPE_FOLDER"
    and "pushdir sys (filename file)
           (emit (Printf ''ENTER DIRECTORY:%s\<newline>'' [str_arg (filename file)]) w) =
         Some (Inr ((), w1))"
    and "current_path sys w1 = Some (Inr (s, w2))"
    and "dump_files n sys storageid (item_id file)
           (emit (Printf ''CURRENT_PATH after entering %s is %s\<newline>''
                    [str_arg (filename file), S s]) w2) = Some (Inl x)"
  shows "dump_files_loop n sys storageid (file # rest) w = Some (Inl x)"
  by (simp add: dump_files_loop_folder [OF assms(1)] assms(2,3,4))

lemma abort_in_loop_propagates:
  assumes "Get_Files_And_Folders sys storageid leaf (env w) = (files, e1)" and "files \<noteq> []"
    and "dump_files_loop n sys storageid files
           ((emit (Ev_Get_Files_And_Folders storageid leaf) w)\<lparr>env := e1\<rparr>) = Some (Inl x)"
  shows "dump_files (Suc n) sys storageid leaf w = Some (Inl x)"
  using assms by (simp add: dump_files_Suc)

lemma abort_in_call:
  assumes "calls sys a b" and "outcome sys b = Some (Inl x)"
  shows "outcome sys a = Some (Inl x)"
  using assms
proof (induction rule: calls.induct)
  case (listing storageid leaf w files e1 n)
  then show ?case by (simp add: abort_in_loop_propagates)
next
  case (next_entry n storageid entry w w' rest)
  then show ?case by (simp add: dump_files_loop_Cons [of n sys storageid entry rest w])
next
  case (descend entry w w1 s w2 n storageid rest)
  then show ?case by (simp add: abort_in_folder_propagates)
qed

lemma abort_ends_run:
  assumes "(calls sys)\<^sup>*\<^sup>* a b" and "outcome sys b = Some (Inl x)"
  shows "outcome sys a = Some (Inl x)"
  using assms
proof (induction rule: converse_rtranclp_induct)
  case base
  then show ?case .
next
  case (step y z)
  from step(3) [OF step(4)] have "outcome sys z = Some (Inl x)" .
  from abort_in_call [OF step(1) this] show ?case .
qed

subsection \<open>Failures that end the run\<close>

text \<open>
  Claim C8. When \<open>stat\<close> on the name of an entry fails with an error number other than
  \<open>ENOENT\<close>, in any state in which \<open>should_copy\<close> gets as far as \<open>stat\<close> (its call of
  \<open>current_path\<close> returns), \<open>should_copy\<close> prints its report with that error number and
  ends the process with \<open>exit(errno)\<close>, \<open>errno\<close> read again after the \<open>fprintf\<close>. The
  report is the last event of the process: every run of the traversal that reaches the
  entry, through any listings and any depth of nested folders, ends in that exit, with
  no download, no release and no further entry. An error number between 1 and 255 gives
  a status that is not zero.
\<close>

theorem stat_failure_is_fatal:
  assumes "returned (current_path sys w) = Some path" and "filename file = Some fname"
    and "sys_stat sys fname (env w) = (-1, st_size, e1)"
    and "sys_errno sys e1 \<noteq> ENOENT"
  shows "failure (should_copy sys file w) = Some (Exit (sys_errno sys (sys_fprintf sys e1))) \<and>
     (\<exists>evs. list_all is_print evs \<and>
        final_world (should_copy sys file w) =
          Some (w\<lparr>out := out w @ evs @
                   [Ev_stat fname,
                    Printf ''couldn't stat %s (%s) and errno is not ENOENT: %i\<newline>''
                      [S fname, S (path @ fname), I (sys_errno sys e1)]],
                 env := sys_fprintf sys e1\<rparr>)) \<and>
     (filetype file \<noteq> LIBMTP_FILETYPE_FOLDER \<and> dump_fileinfo sys file v = w \<and>
      (calls sys)\<^sup>*\<^sup>* run (Loop n storageid (file # rest) v) \<longrightarrow>
        failure (outcome sys run) = Some (Exit (sys_errno sys (sys_fprintf sys e1))) \<and>
        final_world (outcome sys run) = final_world (should_copy sys file w)) \<and>
     (0 < sys_errno sys (sys_fprintf sys e1) \<and> sys_errno sys (sys_fprintf sys e1) < 256 \<longrightarrow>
        exit_status (sys_errno sys (sys_fprintf sys e1)) \<noteq> 0)"
proof -
  from should_copy_fatal [OF assms] obtain evs where
    evs: "list_all is_print evs"
    and sc: "should_copy sys file w =
       Some (Inl (Exit (sys_errno sys (sys_fprintf sys e1)),
         w\<lparr>out := out w @ evs @
              [Ev_stat fname,
               Printf ''couldn't stat %s (%s) and errno is not ENOENT: %i\<newline>''
                 [S fname, S (path @ fname), I (sys_errno sys e1)]],
           env := sys_fprintf sys e1\<rparr>))"
    by (elim exE conjE)
  define x where "x = (Exit (sys_errno sys (sys_fprintf sys e1)),
         w\<lparr>out := out w @ evs @
              [Ev_stat fname,
               Printf ''couldn't stat %s (%s) and errno is not ENOENT: %i\<newline>''
                 [S fname, S (path @ fname), I (sys_errno sys e1)]],
           env := sys_fprintf sys e1\<rparr>)"
  from sc have sc': "should_copy sys file w = Some (Inl x)" by (simp only: x_def)
  have a: "failure (should_copy sys file w) = Some (Exit (sys_errno sys (sys_fprintf sys e1)))"
    by (simp add: sc)
  from evs have b: "\<exists>evs. list_all is_print evs \<and>
        final_world (should_copy sys file w) =
          Some (w\<lparr>out := out w @ evs @
                   [Ev_stat fname,
                    Printf ''couldn't stat %s (%s) and errno is not ENOENT: %i\<newline>''
                      [S fname, S (path @ fname), I (sys_errno sys e1)]],
                 env := sys_fprintf sys e1\<rparr>)"
    by (intro exI [where x = evs]) (simp add: sc)
  have c: "filetype file \<noteq> LIBMTP_FILETYPE_FOLDER \<and> dump_fileinfo sys file v = w \<and>
      (calls sys)\<^sup>*\<^sup>* run (Loop n storageid (file # rest) v) \<longrightarrow>
        failure (outcome sys run) = Some (Exit (sys_errno sys (sys_fprintf sys e1))) \<and>
        final_world (outcome sys run) = final_world (should_copy sys file w)"
  proof (rule impI)
    assume h: "filetype file \<noteq> LIBMTP_FILETYPE_FOLDER \<and> dump_fileinfo sys file v = w \<and>
      (calls sys)\<^sup>*\<^sup>* run (Loop n storageid (file # rest) v)"
    note nf = h [THEN conjunct1] and di = h [THEN conjunct2, THEN conjunct1]
      and r = h [THEN conjunct2, THEN conjunct2]
    from sc' di have "should_copy sys file (dump_fileinfo sys file v) = Some (Inl x)" by simp
    then have "dump_files_file sys file v = Some (Inl x)" by (rule dump_files_file_abort)
    then have "outcome sys (Loop n storageid (file # rest) v) = Some (Inl x)"
      by (simp add: dump_files_loop_file [OF nf])
    with r have "outcome sys run = Some (Inl x)" by (rule abort_ends_run)
    then show "failure (outcome sys run) = Some (Exit (sys_errno sys (sys_fprintf sys e1))) \<and>
        final_world (outcome sys run) = final_world (should_copy sys file w)"
      by (simp add: sc' x_def)
  qed
  have d: "0 < sys_errno sys (sys_fprintf sys e1) \<and> sys_errno sys (sys_fprintf sys e1) < 256 \<longrightarrow>
      exit_status (sys_errno sys (sys_fprintf sys e1)) \<noteq> 0"
    by (simp add: exit_status_def)
  from a b c d show ?thesis by (intro conjI)
qed

lemma pushdir_mkdir_fails:
  assumes "sys_mkdir sys d (env w) = (r, e1)" and "r \<noteq> 0" and "sys_errno sys e1 \<noteq> EEXIST"
  shows "pushdir sys d w =
    Some (Inl (Exit 1,
      w\<lparr>out := out w @ [Ev_mkdir d,
             Printf ''couldn't mkdir %s, errno: %i\<newline>'' [str_arg d, I (sys_errno sys e1)]],
        env := e1\<rparr>))"
  using assms by (simp add: pushdir_def emit_def)

lemma pushdir_chdir_fails:
  assumes "sys_mkdir sys d (env w) = (r, e1)" and "r = 0 \<or> sys_errno sys e1 = EEXIST"
    and "sys_chdir sys d e1 = (r', e2)" and "r' \<noteq> 0"
  shows "pushdir sys d w =
    Some (Inl (Exit 1,
      w\<lparr>out := out w @ [Ev_mkdir d, Ev_chdir d,
             Printf ''couldn't chdir %s, errno: %i\<newline>'' [str_arg d, I (sys_errno sys e2)]],
        env := e2\<rparr>))"
  using assms by (auto simp: pushdir_def emit_def)

lemma pushdir_enters:
  assumes "sys_mkdir sys d (env w) = (r, e1)" and "r = 0 \<or> sys_errno sys e1 = EEXIST"
    and "sys_chdir sys d e1 = (0, e2)"
  shows "pushdir sys d w = push_segment d (w\<lparr>out := out w @ [Ev_mkdir d, Ev_chdir d], env := e2\<rparr>)"
  using assms by (auto simp: pushdir_def emit_def)

lemma emit_out: "emit ev w = w\<lparr>out := out w @ [ev]\<rparr>"
  by (simp add: emit_def)

text \<open>
  Claim C9. For a folder entry the loop of \<open>dump_files\<close> calls \<open>mkdir\<close> and then
  \<open>chdir\<close> on its name. A failure of \<open>mkdir\<close> with \<open>EEXIST\<close> counts as success. Any
  other failure of \<open>mkdir\<close>, and any failure of \<open>chdir\<close>, prints a report and ends the
  process with \<open>exit(1)\<close>: the report is the last event of every run of the traversal
  that reaches the entry, through any listings and any depth of nested folders, so that
  neither the folder nor any later entry is visited. When both calls succeed the segment
  is pushed.
\<close>

theorem folder_creation_failure_is_fatal:
  assumes "filetype file = LIBMTP_FILETYPE_FOLDER"
    and "sys_mkdir sys (filename file) (env w) = (r, e1)"
    and "sys_chdir sys (filename file) e1 = (r', e2)"
    and "(calls sys)\<^sup>*\<^sup>* run (Loop n storageid (file # rest) w)"
  shows "(r \<noteq> 0 \<and> sys_errno sys e1 \<noteq> EEXIST \<longrightarrow>
           outcome sys run =
             Some (Inl (Exit 1,
               w\<lparr>out := out w @
                    [Printf ''ENTER DIRECTORY:%s\<newline>'' [str_arg (filename file)],
                     Ev_mkdir (filename file),
                     Printf ''couldn't mkdir %s, errno: %i\<newline>''
                       [str_arg (filename file), I (sys_errno sys e1)]],
                 env := e1\<rparr>))) \<and>
         ((r = 0 \<or> sys_errno sys e1 = EEXIST) \<and> r' \<noteq> 0 \<longrightarrow>
           outcome sys run =
             Some (Inl (Exit 1,
               w\<lparr>out := out w @
                    [Printf ''ENTER DIRECTORY:%s\<newline>'' [str_arg (filename file)],
                     Ev_mkdir (filename file), Ev_chdir (filename file),
                     Printf ''couldn't chdir %s, errno: %i\<newline>''
                       [str_arg (filename file), I (sys_errno sys e2)]],
                 env := e2\<rparr>))) \<and>
         ((r = 0 \<or> sys_errno sys e1 = EEXIST) \<and> r' = 0 \<longrightarrow>
           pushdir sys (filename file)
               (emit (Printf ''ENTER DIRECTORY:%s\<newline>'' [str_arg (filename file)]) w) =
             push_segment (filename file)
               (w\<lparr>out := out w @
                    [Printf ''ENTER DIRECTORY:%s\<newline>'' [str_arg (filename file)],
                     Ev_mkdir (filename file), Ev_chdir (filename file)],
                  env := e2\<rparr>)) \<and>
         exit_status 1 \<noteq> 0"
proof (intro conjI impI)
  let ?w0 = "emit (Printf ''ENTER DIRECTORY:%s\<newline>'' [str_arg (filename file)]) w"
  from assms(2) have mk: "sys_mkdir sys (filename file) (env ?w0) = (r, e1)"
    by (simp add: emit_def)
  {
    assume a: "r \<noteq> 0 \<and> sys_errno sys e1 \<noteq> EEXIST"
    then have "pushdir sys (filename file) ?w0 =
      Some (Inl (Exit 1,
        ?w0\<lparr>out := out ?w0 @ [Ev_mkdir (filename file),
               Printf ''couldn't mkdir %s, errno: %i\<newline>''
                 [str_arg (filename file), I (sys_errno sys e1)]],
          env := e1\<rparr>))"
      using pushdir_mkdir_fails [OF mk] by simp
    then have "outcome sys (Loop n storageid (file # rest) w) =
             Some (Inl (Exit 1,
               w\<lparr>out := out w @
                    [Printf ''ENTER DIRECTORY:%s\<newline>'' [str_arg (filename file)],
                     Ev_mkdir (filename file),
                     Printf ''couldn't mkdir %s, errno: %i\<newline>''
                       [str_arg (filename file), I (sys_errno sys e1)]],
                 env := e1\<rparr>))"
      by (simp add: dump_files_loop_folder [OF assms(1)]) (simp add: emit_def)
    with assms(4) show "outcome sys run =
             Some (Inl (Exit 1,
               w\<lparr>out := out w @
                    [Printf ''ENTER DIRECTORY:%s\<newline>'' [str_arg (filename file)],
                     Ev_mkdir (filename file),
                     Printf ''couldn't mkdir %s, errno: %i\<newline>''
                       [str_arg (filename file), I (sys_errno sys e1)]],
                 env := e1\<rparr>))"
      by (rule abort_ends_run)
  }
  {
    assume a: "(r = 0 \<or> sys_errno sys e1 = EEXIST) \<and> r' \<noteq> 0"
    then have "pushdir sys (filename file) ?w0 =
      Some (Inl (Exit 1,
        ?w0\<lparr>out := out ?w0 @ [Ev_mkdir (filename file), Ev_chdir (filename file),
               Printf ''couldn't chdir %s, errno: %i\<newline>''
                 [str_arg (filename file), I (sys_errno sys e2)]],
          env := e2\<rparr>))"
      using pushdir_chdir_fails [OF mk _ assms(3)] by simp
    then have "outcome sys (Loop n storageid (file # rest) w) =
             Some (Inl (Exit 1,
               w\<lparr>out := out w @
                    [Printf ''ENTER DIRECTORY:%s\<newline>'' [str_arg (filename file)],
                     Ev_mkdir (filename file), Ev_chdir (filename file),
                     Printf ''couldn't chdir %s, errno: %i\<newline>''
                       [str_arg (filename file), I (sys_errno sys e2)]],
                 env := e2\<rparr>))"
      by (simp add: dump_files_loop_folder [OF assms(1)]) (simp add: emit_def)
    with assms(4) show "outcome sys run =
             Some (Inl (Exit 1,
               w\<lparr>out := out w @
                    [Printf ''ENTER DIRECTORY:%s\<newline>'' [str_arg (filename file)],
                     Ev_mkdir (filename file), Ev_chdir (filename file),
                     Printf ''couldn't chdir %s, errno: %i\<newline>''
                       [str_arg (filename file), I (sys_errno sys e2)]],
                 env := e2\<rparr>))"
      by (rule abort_ends_run)
  }
  {
    assume a: "(r = 0 \<or> sys_errno sys e1 = EEXIST) \<and> r' = 0"
    with assms(3) have ch: "sys_chdir sys (filename file) e1 = (0, e2)" by simp
    from a have "r = 0 \<or> sys_errno sys e1 = EEXIST" by simp
    from pushdir_enters [OF mk this ch]
    show "pushdir sys (filename file) ?w0 =
             push_segment (filename file)
               (w\<lparr>out := out w @
                    [Printf ''ENTER DIRECTORY:%s\<newline>'' [str_arg (filename file)],
                     Ev_mkdir (filename file), Ev_chdir (filename file)],
                  env := e2\<rparr>)"
      by (simp add: emit_def)
  }
  show "exit_status 1 \<noteq> 0" by (simp add: exit_status_def)
qed

text \<open>
  Claim C7, as amended. When the listing call returns \<open>NULL\<close> (nothing listed, or an
  error), \<open>dump_files\<close> dumps and clears the error stack of the device and returns: the
  result is taken as an empty folder, not as an error. When the call returns entries,
  \<open>dump_files\<close> goes on to its loop over them in the state the listing call left, without
  dumping or clearing the error stack.
\<close>

theorem listing_clears_error_stack_when_empty:
  assumes "Get_Files_And_Folders sys storageid leaf (env w) = (files, e1)"
  shows "(files = [] \<longrightarrow>
           dump_files (Suc n) sys storageid leaf w =
             Some (Inr ((),
               w\<lparr>out := out w @ [Ev_Get_Files_And_Folders storageid leaf,
                                   Ev_Dump_Errorstack, Ev_Clear_Errorstack],
                 env := Clear_Errorstack sys (Dump_Errorstack sys e1)\<rparr>))) \<and>
         (files \<noteq> [] \<longrightarrow>
           dump_files (Suc n) sys storageid leaf w =
             dump_files_loop n sys storageid files
               (w\<lparr>out := out w @ [Ev_Get_Files_And_Folders storageid leaf], env := e1\<rparr>))"
  using assms by (simp add: dump_files_Suc emit_def)

subsection \<open>Pushes and pops in a trace\<close>

lemma depth_after_append:
  "depth_after d (xs @ ys) =
     (case depth_after d xs of None \<Rightarrow> None | Some d' \<Rightarrow> depth_after d' ys)"
proof (induction d xs rule: depth_after.induct)
  case (3 d evs)
  then show ?case by (cases d) simp_all
qed simp_all

lemma depth_after_shift:
  "depth_after d evs = Some d' \<Longrightarrow> depth_after (d + k) evs = Some (d' + k)"
proof (induction d evs arbitrary: d' rule: depth_after.induct)
  case (3 d evs)
  then show ?case by (cases d) simp_all
qed simp_all

lemma depth_after_calm: "calm evs \<Longrightarrow> depth_after d evs = Some d"
  by (induction d evs rule: depth_after.induct) (simp_all add: calm_def)

lemma balanced_depth: "balanced evs \<Longrightarrow> depth_after d evs = Some d"
  using depth_after_shift [of 0 evs 0 d] by (simp add: balanced_def)

lemma balanced_calm: "calm evs \<Longrightarrow> balanced evs"
  by (simp add: balanced_def depth_after_calm)

lemma balanced_append: "balanced xs \<Longrightarrow> balanced ys \<Longrightarrow> balanced (xs @ ys)"
  by (simp add: balanced_def depth_after_append)

lemma balanced_nest: "balanced xs \<Longrightarrow> balanced (Ev_push_segment x # xs @ [Ev_pop_segment])"
  using balanced_depth [of xs 1] by (simp add: balanced_def depth_after_append)

lemma balanced_safe: "balanced evs \<Longrightarrow> pops_after_push evs"
  by (simp add: balanced_def pops_after_push_def)

lemma safe_after_balanced: "balanced xs \<Longrightarrow> pops_after_push ys \<Longrightarrow> pops_after_push (xs @ ys)"
  by (simp add: balanced_def pops_after_push_def depth_after_append)

lemma safe_after_push: "pops_after_push xs \<Longrightarrow> pops_after_push (Ev_push_segment d # xs)"
proof -
  assume "pops_after_push xs"
  then obtain k where "depth_after 0 xs = Some k" by (auto simp: pops_after_push_def)
  from depth_after_shift [OF this, of 1] show ?thesis by (simp add: pops_after_push_def)
qed

lemma depth_after_counts:
  "depth_after d evs = Some d' \<Longrightarrow> d + pushes evs = d' + pops evs"
proof (induction d evs arbitrary: d' rule: depth_after.induct)
  case (3 d evs)
  then show ?case by (cases d) auto
qed auto

lemma balanced_counts: "balanced evs \<Longrightarrow> pushes evs = pops evs"
  using depth_after_counts [of 0 evs 0] by (simp add: balanced_def)

lemma calm_prints: "list_all is_print evs \<Longrightarrow> calm evs"
proof (induction evs)
  case Nil
  show ?case by (simp add: calm_def)
next
  case (Cons ev evs)
  then show ?case by (cases ev) (simp_all add: calm_def)
qed

lemma calm_append: "calm xs \<Longrightarrow> calm ys \<Longrightarrow> calm (xs @ ys)"
  by (simp add: calm_def)

subsection \<open>Steps of a run\<close>

lemma steps_refl: "steps w w []"
  by (simp add: steps_def)

lemma steps_trans: "steps w w1 xs \<Longrightarrow> steps w1 w2 ys \<Longrightarrow> steps w w2 (xs @ ys)"
  by (simp add: steps_def)

lemma steps_emit: "steps w (emit ev w) [ev]"
  by (simp add: steps_def emit_def)

lemma calm_step_refl: "calm_step w w"
  by (auto simp: calm_step_def same_stack_def steps_def calm_def)

lemma calm_step_trans: "calm_step w w1 \<Longrightarrow> calm_step w1 w2 \<Longrightarrow> calm_step w w2"
proof -
  assume a: "calm_step w w1" and b: "calm_step w1 w2"
  from a obtain xs where xs: "steps w w1 xs" "calm xs" and s1: "same_stack w w1"
    by (auto simp: calm_step_def)
  from b obtain ys where ys: "steps w1 w2 ys" "calm ys" and s2: "same_stack w1 w2"
    by (auto simp: calm_step_def)
  from s1 s2 have "same_stack w w2" by (simp add: same_stack_def)
  moreover from xs ys have "steps w w2 (xs @ ys) \<and> calm (xs @ ys)"
    by (simp add: steps_trans calm_append)
  then have "\<exists>evs. steps w w2 evs \<and> calm evs" by (rule exI)
  ultimately show ?thesis unfolding calm_step_def by (rule conjI)
qed

lemma calm_step_emit: "\<not> stack_event ev \<Longrightarrow> calm_step w (emit ev w)"
  unfolding calm_step_def
  by (intro conjI exI [of _ "[ev]"]) (simp_all add: same_stack_def steps_def emit_def calm_def)

lemma calm_step_env: "calm_step w (w\<lparr>env := e\<rparr>)"
  unfolding calm_step_def
  by (intro conjI exI [of _ "[]"]) (simp_all add: same_stack_def steps_def calm_def)

lemma calm_step_fails: "calm_step w (w\<lparr>fails := e\<rparr>)"
  unfolding calm_step_def
  by (intro conjI exI [of _ "[]"]) (simp_all add: same_stack_def steps_def calm_def)

lemma calm_step_call: "\<not> stack_event ev \<Longrightarrow> calm_step w ((emit ev w)\<lparr>env := e\<rparr>)"
  by (rule calm_step_trans [OF calm_step_emit calm_step_env])

lemma calm_step_prints: "list_all is_print evs \<Longrightarrow> calm_step w (w\<lparr>out := out w @ evs\<rparr>)"
  unfolding calm_step_def
  by (intro conjI exI [of _ evs]) (simp_all add: same_stack_def steps_def calm_prints)

lemma path_stack_same: "path_stack w as ss \<Longrightarrow> same_stack w w' \<Longrightarrow> path_stack w' as ss"
  by (simp add: path_stack_def same_stack_def)

lemma path_stack_calm: "path_stack w as ss \<Longrightarrow> calm_step w w' \<Longrightarrow> path_stack w' as ss"
  by (auto simp: calm_step_def intro: path_stack_same)

lemma calm_bal: "calm_step w w' \<Longrightarrow> bal_step w w'"
  by (auto simp: calm_step_def bal_step_def intro: balanced_calm)

lemma bal_safe: "bal_step w w' \<Longrightarrow> safe_step w w'"
  by (auto simp: bal_step_def safe_step_def intro: balanced_safe)

lemma bal_trans: "bal_step w w1 \<Longrightarrow> bal_step w1 w2 \<Longrightarrow> bal_step w w2"
proof -
  assume "bal_step w w1" and "bal_step w1 w2"
  then obtain xs ys where "steps w w1 xs" "balanced xs" "steps w1 w2 ys" "balanced ys"
    by (auto simp: bal_step_def)
  then have "steps w w2 (xs @ ys) \<and> balanced (xs @ ys)"
    by (simp add: steps_trans balanced_append)
  then show ?thesis unfolding bal_step_def by (rule exI)
qed

lemma bal_then_safe: "bal_step w w1 \<Longrightarrow> safe_step w1 w2 \<Longrightarrow> safe_step w w2"
proof -
  assume "bal_step w w1" and "safe_step w1 w2"
  then obtain xs ys where "steps w w1 xs" "balanced xs" "steps w1 w2 ys" "pops_after_push ys"
    by (auto simp: bal_step_def safe_step_def)
  then have "steps w w2 (xs @ ys) \<and> pops_after_push (xs @ ys)"
    by (simp add: steps_trans safe_after_balanced)
  then show ?thesis unfolding safe_step_def by (rule exI)
qed

lemma push_then_safe:
  "steps w w1 [Ev_push_segment d] \<Longrightarrow> safe_step w1 w2 \<Longrightarrow> safe_step w w2"
proof -
  assume a: "steps w w1 [Ev_push_segment d]" and "safe_step w1 w2"
  then obtain ys where ys: "steps w1 w2 ys" "pops_after_push ys"
    by (auto simp: safe_step_def)
  from steps_trans [OF a ys(1)] safe_after_push [OF ys(2), of d]
  have "steps w w2 (Ev_push_segment d # ys) \<and> pops_after_push (Ev_push_segment d # ys)"
    by simp
  then show ?thesis unfolding safe_step_def by (rule exI)
qed

lemma bal_nest:
  assumes "steps w w1 [Ev_push_segment d]" and "bal_step w1 w2" and "steps w2 w3 [Ev_pop_segment]"
  shows "bal_step w w3"
proof -
  from assms(2) obtain xs where xs: "steps w1 w2 xs" "balanced xs" by (auto simp: bal_step_def)
  from assms(1) xs(1) assms(3) have "steps w w3 (Ev_push_segment d # xs @ [Ev_pop_segment])"
    by (simp add: steps_def)
  with balanced_nest [OF xs(2), of d]
  have "steps w w3 (Ev_push_segment d # xs @ [Ev_pop_segment]) \<and>
      balanced (Ev_push_segment d # xs @ [Ev_pop_segment])" by simp
  then show ?thesis unfolding bal_step_def by (rule exI)
qed

lemma good_calm: "path_stack w as ss \<Longrightarrow> calm_step w w' \<Longrightarrow> good w w' as ss"
  by (simp add: good_def path_stack_calm calm_bal)

lemma good_trans: "good w w1 as ss \<Longrightarrow> good w1 w2 as ss \<Longrightarrow> good w w2 as ss"
  by (auto simp: good_def intro: bal_trans)

lemma run_ok_calm:
  "path_stack w as ss \<Longrightarrow> calm_step w (world_of y) \<Longrightarrow> run_ok w y as ss"
  by (cases y) (auto simp: run_ok_def good_calm calm_bal bal_safe)

lemma run_ok_after:
  "bal_step w w1 \<Longrightarrow> run_ok w1 y as ss \<Longrightarrow> run_ok w y as ss"
  by (cases y) (auto simp: run_ok_def good_def intro: bal_trans bal_then_safe)

lemma run_ok_abort: "safe_step w w' \<Longrightarrow> run_ok w (Inl (x, w')) as ss"
  by (simp add: run_ok_def)

lemma then_do_cases:
  assumes "then_do m f = Some y"
  obtains (abort) x where "m = Some (Inl x)" and "y = Inl x"
    | (go) a w1 where "m = Some (Inr (a, w1))" and "f a w1 = Some y"
proof (cases m)
  case None
  with assms show ?thesis by simp
next
  case (Some z)
  show ?thesis
  proof (cases z)
    case (Inl x)
    with Some assms abort show ?thesis by simp
  next
    case (Inr p)
    obtain a w1 where "p = (a, w1)" by (cases p)
    with Some Inr assms go show ?thesis by simp
  qed
qed

subsection \<open>The calls that leave the stack alone\<close>

lemma world_of_Inl [simp]: "world_of (Inl x) = snd x"
  by (cases x) simp

lemma current_path_calm:
  assumes "current_path sys w = Some y"
  shows "calm_step w (world_of y)"
proof -
  from current_path_prints [OF assms] obtain evs where
    "list_all is_print evs" "world_of y = w\<lparr>out := out w @ evs\<rparr>"
    by (auto simp: prints_only_def)
  then show ?thesis by (simp add: calm_step_prints)
qed

lemma stat_decision_calm:
  assumes "stat_decision sys file p w = Some y"
  shows "calm_step w (world_of y)"
proof (cases "filename file")
  case None
  with assms have "world_of y = w" by (auto simp: stat_decision_def)
  then show ?thesis by (simp add: calm_step_refl)
next
  case (Some fname)
  obtain r st_size e1 where st: "sys_stat sys fname (env w) = (r, st_size, e1)"
    by (cases "sys_stat sys fname (env w)")
  let ?w2 = "(emit (Ev_stat fname) w)\<lparr>env := e1\<rparr>"
  have c2: "calm_step w ?w2" by (rule calm_step_call) simp
  have "calm_step ?w2 (world_of y)"
  proof (cases "r = -1")
    case True
    show ?thesis
    proof (cases "sys_errno sys e1 = ENOENT")
      case True
      with assms \<open>r = -1\<close> have "world_of y = emit (Printf ''STAT(%s)->ENOENT\<newline>'' [S fname]) ?w2"
        by (auto simp: stat_decision_def Some st Let_def)
      then show ?thesis by (simp add: calm_step_emit)
    next
      case False
      with assms \<open>r = -1\<close> have "world_of y =
          (emit (Printf ''couldn't stat %s (%s) and errno is not ENOENT: %i\<newline>''
                   [S fname, S (p @ fname), I (sys_errno sys e1)]) ?w2)\<lparr>env := sys_fprintf sys e1\<rparr>"
        by (auto simp: stat_decision_def Some st Let_def)
      then show ?thesis by (simp add: calm_step_call)
    qed
  next
    case False
    with assms have "world_of y = emit (Printf ''compare: %s (%s) : %li ==  %lu\<newline>''
        [S fname, S (p @ fname), I (sint st_size), I (uint (filesize file))]) ?w2"
      by (auto simp: stat_decision_def Some st Let_def)
    then show ?thesis by (simp add: calm_step_emit)
  qed
  with c2 show ?thesis by (rule calm_step_trans)
qed

lemma should_copy_calm:
  assumes "should_copy sys file w = Some y"
  shows "calm_step w (world_of y)"
proof -
  from assms have "then_do (current_path sys w) (stat_decision sys file) = Some y"
    by (simp add: should_copy_eq)
  then show ?thesis
  proof (cases rule: then_do_cases)
    case (abort x)
    from current_path_calm [OF abort(1)] abort(2) show ?thesis by simp
  next
    case (go p w1)
    from current_path_calm [OF go(1)] stat_decision_calm [OF go(2)]
    show ?thesis by (simp add: calm_step_trans)
  qed
qed

lemma exit_if_calm:
  assumes "exit_if_too_many_fails w = Some y"
  shows "calm_step w (world_of y)"
proof -
  let ?w1 = "w\<lparr>fails := fails w + 1\<rparr>"
  let ?ev = "Printf ''total fails so far: %i'' [I (sint (fails ?w1))]"
  from assms have "world_of y = emit ?ev ?w1"
    by (auto simp: exit_if_too_many_fails_def Let_def split: if_splits)
  moreover have "calm_step w (emit ?ev ?w1)"
    by (rule calm_step_trans [OF calm_step_fails calm_step_emit]) simp
  ultimately show ?thesis by simp
qed

lemma dump_fileinfo_calm: "calm_step w (dump_fileinfo sys file w)"
proof -
  from dump_fileinfo_prints [of sys "file" w] obtain evs where
    "list_all is_print evs" "dump_fileinfo sys file w = w\<lparr>out := out w @ evs\<rparr>"
    by (elim exE conjE)
  then show ?thesis by (simp add: calm_step_prints)
qed

lemma dump_files_file_calm:
  assumes "dump_files_file sys file w = Some y"
  shows "calm_step w (world_of y)"
proof -
  let ?w0 = "dump_fileinfo sys file w"
  have c0: "calm_step w ?w0" by (rule dump_fileinfo_calm)
  let ?k = "\<lambda>will_copy w1.
      let w2 = emit (Printf ''should_copy(%s):%i\<newline>''
                       [str_arg (filename file), I will_copy]) w1
      in if will_copy \<noteq> 0
         then (let (r, e1) = Get_File_To_File sys (item_id file) (filename file) (env w2);
                   w3 = (emit (Ev_Get_File_To_File (item_id file) (filename file)) w2)\<lparr>env := e1\<rparr>
               in if r \<noteq> 0
                  then (let (wd, e2) = sys_getcwd sys (env w3);
                            w4 = (emit Ev_getcwd w3)\<lparr>env := e2\<rparr>
                        in exit_if_too_many_fails
                             (emit (Printf ''couldn't write %s in dir %s, errno:%i\<newline>''
                                      [str_arg (filename file), S wd, I (sys_errno sys e2)]) w4))
                  else Some (Inr ((), w3)))
         else Some (Inr ((), w2))"
  from assms have "then_do (should_copy sys file ?w0) ?k = Some y"
    by (simp add: dump_files_file_def)
  then have "calm_step ?w0 (world_of y)"
  proof (cases rule: then_do_cases)
    case (abort x)
    from should_copy_calm [OF abort(1)] abort(2) show ?thesis by simp
  next
    case (go v w1)
    have c1: "calm_step ?w0 w1" using should_copy_calm [OF go(1)] by simp
    let ?w2 = "emit (Printf ''should_copy(%s):%i\<newline>'' [str_arg (filename file), I v]) w1"
    have c2: "calm_step w1 ?w2" by (rule calm_step_emit) simp
    have c3: "calm_step ?w2 (world_of y)"
    proof (cases "v \<noteq> 0")
      case False
      with go(2) have "world_of y = ?w2" by (auto simp: Let_def)
      then show ?thesis by (simp add: calm_step_refl)
    next
      case True
      obtain r e1 where g: "Get_File_To_File sys (item_id file) (filename file) (env ?w2) = (r, e1)"
        by (cases "Get_File_To_File sys (item_id file) (filename file) (env ?w2)")
      let ?w3 = "(emit (Ev_Get_File_To_File (item_id file) (filename file)) ?w2)\<lparr>env := e1\<rparr>"
      have c23: "calm_step ?w2 ?w3" by (rule calm_step_call) simp
      show ?thesis
      proof (cases "r \<noteq> 0")
        case False
        with go(2) True g have "world_of y = ?w3" by (auto simp: Let_def)
        with c23 show ?thesis by simp
      next
        case r: True
        obtain wd e2 where cw: "sys_getcwd sys (env ?w3) = (wd, e2)"
          by (cases "sys_getcwd sys (env ?w3)")
        let ?w4 = "(emit Ev_getcwd ?w3)\<lparr>env := e2\<rparr>"
        let ?w5 = "emit (Printf ''couldn't write %s in dir %s, errno:%i\<newline>''
                        [str_arg (filename file), S wd, I (sys_errno sys e2)]) ?w4"
        have c34: "calm_step ?w3 ?w4" by (rule calm_step_call) simp
        have c45: "calm_step ?w4 ?w5" by (rule calm_step_emit) simp
        from go(2) True g r cw have "exit_if_too_many_fails ?w5 = Some y"
          by (simp add: Let_def)
        then have c5: "calm_step ?w5 (world_of y)" by (rule exit_if_calm)
        from c23 c34 have "calm_step ?w2 ?w4" by (rule calm_step_trans)
        from this c45 have "calm_step ?w2 ?w5" by (rule calm_step_trans)
        from this c5 show ?thesis by (rule calm_step_trans)
      qed
    qed
    from c1 c2 have "calm_step ?w0 ?w2" by (rule calm_step_trans)
    from this c3 show ?thesis by (rule calm_step_trans)
  qed
  with c0 show ?thesis by (rule calm_step_trans)
qed

subsection \<open>Entering and leaving a folder\<close>

lemma push_segment_steps:
  assumes "push_segment d w = Some y"
  shows "steps w (world_of y) [Ev_push_segment d]"
  using assms
  by (auto simp: push_segment_def Let_def steps_def emit_def split: option.splits if_splits)

lemma pushdir_returns:
  assumes "path_stack w as ss" and "pushdir sys d w = Some (Inr ((), w'))"
  obtains nm a w2 where "d = Some nm" and "calm_step w w2"
    and "steps w2 w' [Ev_push_segment d]" and "path_stack w' (as @ [a]) (ss @ [nm])"
proof -
  obtain r e1 where mk: "sys_mkdir sys d (env w) = (r, e1)"
    by (cases "sys_mkdir sys d (env w)")
  let ?w1 = "(emit (Ev_mkdir d) w)\<lparr>env := e1\<rparr>"
  obtain r' e2 where ch: "sys_chdir sys d (env ?w1) = (r', e2)"
    by (cases "sys_chdir sys d (env ?w1)")
  let ?w2 = "(emit (Ev_chdir d) ?w1)\<lparr>env := e2\<rparr>"
  from assms(2) mk ch have ps: "push_segment d ?w2 = Some (Inr ((), w'))"
    by (simp add: pushdir_def Let_def split: if_splits)
  have c1: "calm_step w ?w1" by (rule calm_step_call) simp
  have c2: "calm_step ?w1 ?w2" by (rule calm_step_call) simp
  from c1 c2 have c: "calm_step w ?w2" by (rule calm_step_trans)
  then have st: "path_stack ?w2 as ss" by (rule path_stack_calm [OF assms(1)])
  show ?thesis
  proof (cases d)
    case None
    with ps show ?thesis by (simp add: push_segment_def Let_def)
  next
    case (Some nm)
    from push_segment_stack [OF st, of nm] obtain w'' where
      w'': "push_segment (Some nm) ?w2 = Some (Inr ((), w''))"
        "path_stack w'' (as @ [brk ?w2]) (ss @ [nm])"
        "out w'' = out ?w2 @ [Ev_push_segment (Some nm)]"
      by (elim exE conjE)
    from ps w''(1) Some have e: "w' = w''" by simp
    from w''(3) Some e have "steps ?w2 w' [Ev_push_segment d]" by (simp add: steps_def)
    with Some c w''(2) e that show ?thesis by simp
  qed
qed

lemma pushdir_aborts:
  assumes "pushdir sys d w = Some (Inl (x, w'))"
  shows "safe_step w w'"
proof -
  obtain r e1 where mk: "sys_mkdir sys d (env w) = (r, e1)"
    by (cases "sys_mkdir sys d (env w)")
  let ?w1 = "(emit (Ev_mkdir d) w)\<lparr>env := e1\<rparr>"
  have c1: "calm_step w ?w1" by (rule calm_step_call) simp
  show ?thesis
  proof (cases "r \<noteq> 0 \<and> sys_errno sys e1 \<noteq> EEXIST")
    case True
    with assms mk have "w' = emit (Printf ''couldn't mkdir %s, errno: %i\<newline>''
                       [str_arg d, I (sys_errno sys e1)]) ?w1"
      by (simp add: pushdir_def Let_def)
    then have "calm_step ?w1 w'" by (simp add: calm_step_emit)
    with c1 have "calm_step w w'" by (rule calm_step_trans)
    then show ?thesis by (intro bal_safe calm_bal)
  next
    case False
    obtain r' e2 where ch: "sys_chdir sys d (env ?w1) = (r', e2)"
      by (cases "sys_chdir sys d (env ?w1)")
    let ?w2 = "(emit (Ev_chdir d) ?w1)\<lparr>env := e2\<rparr>"
    have c2: "calm_step ?w1 ?w2" by (rule calm_step_call) simp
    from c1 c2 have c: "calm_step w ?w2" by (rule calm_step_trans)
    show ?thesis
    proof (cases "r' \<noteq> 0")
      case True
      with assms mk ch False have "w' = emit (Printf ''couldn't chdir %s, errno: %i\<newline>''
                                [str_arg d, I (sys_errno sys e2)]) ?w2"
        by (simp add: pushdir_def Let_def)
      then have "calm_step ?w2 w'" by (simp add: calm_step_emit)
      with c have "calm_step w w'" by (rule calm_step_trans)
      then show ?thesis by (intro bal_safe calm_bal)
    next
      case r': False
      with assms mk ch False have "push_segment d ?w2 = Some (Inl (x, w'))"
        by (simp add: pushdir_def Let_def)
      from push_segment_steps [OF this] have "steps ?w2 w' [Ev_push_segment d]" by simp
      moreover have "safe_step w' w'" by (intro bal_safe calm_bal calm_step_refl)
      ultimately have "safe_step ?w2 w'" by (rule push_then_safe)
      with calm_bal [OF c] show ?thesis by (rule bal_then_safe)
    qed
  qed
qed

lemma popdir_returns:
  assumes "path_stack w (as @ [a]) (ss @ [s])" and "popdir sys w = Some (Inr ((), w'))"
  obtains w1 where "calm_step w w1" and "steps w1 w' [Ev_pop_segment]" and "path_stack w' as ss"
proof -
  obtain r e1 where ch: "sys_chdir sys (Some ''..'') (env w) = (r, e1)"
    by (cases "sys_chdir sys (Some ''..'') (env w)")
  let ?w1 = "(emit (Ev_chdir (Some ''..'')) w)\<lparr>env := e1\<rparr>"
  from assms(2) ch have pp: "pop_segment ?w1 = Some (Inr ((), w'))"
    by (simp add: popdir_def Let_def split: if_splits)
  have c: "calm_step w ?w1" by (rule calm_step_call) simp
  then have st: "path_stack ?w1 (as @ [a]) (ss @ [s])" by (rule path_stack_calm [OF assms(1)])
  from pop_segment_stack [OF st] obtain w'' where
    w'': "pop_segment ?w1 = Some (Inr ((), w''))" "path_stack w'' as ss"
      "out w'' = out ?w1 @ [Ev_pop_segment]"
    by (elim exE conjE)
  from pp w''(1) have e: "w' = w''" by simp
  from w''(3) e have "steps ?w1 w' [Ev_pop_segment]" by (simp add: steps_def)
  with c w''(2) e that show ?thesis by simp
qed

lemma popdir_aborts:
  assumes "path_stack w (as @ [a]) (ss @ [s])" and "popdir sys w = Some (Inl (x, w'))"
  shows "calm_step w w'"
proof -
  obtain r e1 where ch: "sys_chdir sys (Some ''..'') (env w) = (r, e1)"
    by (cases "sys_chdir sys (Some ''..'') (env w)")
  let ?w1 = "(emit (Ev_chdir (Some ''..'')) w)\<lparr>env := e1\<rparr>"
  have c: "calm_step w ?w1" by (rule calm_step_call) simp
  then have st: "path_stack ?w1 (as @ [a]) (ss @ [s])" by (rule path_stack_calm [OF assms(1)])
  show ?thesis
  proof (cases "r \<noteq> 0")
    case True
    with assms(2) ch have "w' = emit (Printf ''wow, couldn't chdir(\"..\") errno: %i\<newline>''
                       [I (sys_errno sys e1)]) ?w1"
      by (simp add: popdir_def Let_def)
    then have "calm_step ?w1 w'" by (simp add: calm_step_emit)
    with c show ?thesis by (rule calm_step_trans)
  next
    case False
    with assms(2) ch have "pop_segment ?w1 = Some (Inl (x, w'))"
      by (simp add: popdir_def Let_def)
    moreover from pop_segment_stack [OF st] obtain w'' where
      "pop_segment ?w1 = Some (Inr ((), w''))" by (elim exE conjE)
    ultimately show ?thesis by simp
  qed
qed

subsection \<open>The stack during the traversal\<close>

lemma dump_files_loop_folder_entry:
  "filetype file = LIBMTP_FILETYPE_FOLDER \<Longrightarrow>
   dump_files_loop n sys storageid (file # rest) w =
     then_do (dump_files_folder n sys storageid file w)
       (\<lambda>_ w'. dump_files_loop n sys storageid rest (emit (Ev_destroy_file_t (item_id file)) w'))"
  unfolding dump_files_folder_def by (rule dump_files_loop_folder)

lemma run_ok_Inl: "run_ok w (Inl x) as ss = safe_step w (snd x)"
  by (cases x) (simp add: run_ok_def)

lemma run_ok_Inr: "run_ok w (Inr (u, w')) as ss = good w w' as ss"
  by (simp add: run_ok_def)

lemma folder_ok_Inl: "folder_ok w (Inl x) as ss d = safe_step w (snd x)"
  by (cases x) (simp add: folder_ok_def)

lemma folder_ok_Inr:
  "folder_ok w (Inr (u, w')) as ss d = (path_stack w' as ss \<and> nested_step w w' d)"
  by (simp add: folder_ok_def)

lemma nested_abort:
  assumes "calm_step w wp" and "steps wp w1 [Ev_push_segment d]" and "safe_step w1 w'"
  shows "safe_step w w'"
proof -
  from assms(2,3) have "safe_step wp w'" by (rule push_then_safe)
  with calm_bal [OF assms(1)] show ?thesis by (rule bal_then_safe)
qed

lemma nested_stepI:
  assumes "calm_step w wp" and "steps wp w1 [Ev_push_segment d]" and "bal_step w1 wq"
    and "steps wq w4 [Ev_pop_segment]" and "calm_step w4 wA"
  shows "nested_step w wA d"
proof -
  from assms(1) obtain pre where pre: "steps w wp pre" "calm pre" by (auto simp: calm_step_def)
  from assms(3) obtain inner where inner: "steps w1 wq inner" "balanced inner"
    by (auto simp: bal_step_def)
  from assms(5) obtain post where post: "steps w4 wA post" "calm post"
    by (auto simp: calm_step_def)
  from pre(1) assms(2) inner(1) assms(4) post(1)
  have "out wA = out w @ pre @ Ev_push_segment d # inner @ Ev_pop_segment # post"
    by (simp add: steps_def)
  with pre(2) inner(2) post(2)
  have "out wA = out w @ pre @ Ev_push_segment d # inner @ Ev_pop_segment # post \<and>
       calm pre \<and> balanced inner \<and> calm post" by (intro conjI)
  then show ?thesis unfolding nested_step_def by (intro exI)
qed

lemma nested_bal: "nested_step w w' d \<Longrightarrow> bal_step w w'"
proof -
  assume "nested_step w w' d"
  then obtain pre inner post where
    o: "out w' = out w @ pre @ Ev_push_segment d # inner @ Ev_pop_segment # post"
    and c: "calm pre" "balanced inner" "calm post"
    unfolding nested_step_def by (elim exE conjE)
  have "balanced (pre @ (Ev_push_segment d # inner @ [Ev_pop_segment]) @ post)"
    by (intro balanced_append balanced_calm balanced_nest c)
  with o have "steps w w' (pre @ (Ev_push_segment d # inner @ [Ev_pop_segment]) @ post) \<and>
      balanced (pre @ (Ev_push_segment d # inner @ [Ev_pop_segment]) @ post)"
    by (simp add: steps_def)
  then show ?thesis unfolding bal_step_def by (rule exI)
qed

lemma folder_entry:
  assumes V: "\<And>w y as ss leaf. path_stack w as ss \<Longrightarrow>
      dump_files n sys storageid leaf w = Some y \<Longrightarrow> run_ok w y as ss"
    and ps: "path_stack w as ss"
    and run: "dump_files_folder n sys storageid file w = Some y"
  shows "folder_ok w y as ss (filename file)"
proof -
  let ?w0 = "emit (Printf ''ENTER DIRECTORY:%s\<newline>'' [str_arg (filename file)]) w"
  have c0: "calm_step w ?w0" by (rule calm_step_emit) simp
  then have ps0: "path_stack ?w0 as ss" by (rule path_stack_calm [OF ps])
  from run [unfolded dump_files_folder_def] show ?thesis
  proof (cases rule: then_do_cases)
    case (abort x)
    obtain e w' where x: "x = (e, w')" by (cases x)
    from abort(1) have "safe_step ?w0 w'" unfolding x by (rule pushdir_aborts)
    with calm_bal [OF c0] have "safe_step w w'" by (rule bal_then_safe)
    then show ?thesis by (simp add: abort(2) x folder_ok_Inl)
  next
    case (go u1 w1)
    from go(1) have pd: "pushdir sys (filename file) ?w0 = Some (Inr ((), w1))" by simp
    from pushdir_returns [OF ps0 pd] obtain nm a wp where
      nm: "filename file = Some nm" and cp0: "calm_step ?w0 wp"
      and push: "steps wp w1 [Ev_push_segment (filename file)]"
      and ps1: "path_stack w1 (as @ [a]) (ss @ [nm])"
      by blast
    from c0 cp0 have cb: "calm_step w wp" by (rule calm_step_trans)
    from go(2) show ?thesis
    proof (cases rule: then_do_cases)
      case (abort x)
      from current_path_calm [OF abort(1)] have "calm_step w1 (snd x)" by simp
      then have "safe_step w1 (snd x)" by (intro bal_safe calm_bal)
      with cb push have "safe_step w (snd x)" by (rule nested_abort)
      then show ?thesis by (simp add: abort(2) folder_ok_Inl)
    next
      case (go s w2)
      let ?w2 = "emit (Printf ''CURRENT_PATH after entering %s is %s\<newline>''
                          [str_arg (filename file), S s]) w2"
      from current_path_calm [OF go(1)] have c12: "calm_step w1 w2" by simp
      have c22: "calm_step w2 ?w2" by (rule calm_step_emit) simp
      from c12 c22 have c1: "calm_step w1 ?w2" by (rule calm_step_trans)
      then have ps2: "path_stack ?w2 (as @ [a]) (ss @ [nm])" by (rule path_stack_calm [OF ps1])
      from go(2) show ?thesis
      proof (cases rule: then_do_cases)
        case (abort x)
        from V [OF ps2 abort(1)] have "safe_step ?w2 (snd x)" by (simp add: run_ok_Inl)
        with calm_bal [OF c1] have "safe_step w1 (snd x)" by (rule bal_then_safe)
        with cb push have "safe_step w (snd x)" by (rule nested_abort)
        then show ?thesis by (simp add: abort(2) folder_ok_Inl)
      next
        case (go u3 w3)
        from V [OF ps2 go(1)] have g3: "good ?w2 w3 (as @ [a]) (ss @ [nm])"
          by (simp add: run_ok_Inr)
        then have ps3: "path_stack w3 (as @ [a]) (ss @ [nm])" and b23: "bal_step ?w2 w3"
          by (simp_all add: good_def)
        from calm_bal [OF c1] b23 have b13: "bal_step w1 w3" by (rule bal_trans)
        let ?w3 = "emit (Printf ''LEAVE DIRECTORY:%s\<newline>'' [str_arg (filename file)]) w3"
        have c3: "calm_step w3 ?w3" by (rule calm_step_emit) simp
        then have ps3': "path_stack ?w3 (as @ [a]) (ss @ [nm])" by (rule path_stack_calm [OF ps3])
        from go(2) show ?thesis
        proof (cases rule: then_do_cases)
          case (abort x)
          obtain e w' where x: "x = (e, w')" by (cases x)
          from abort(1) have "calm_step ?w3 w'" unfolding x by (rule popdir_aborts [OF ps3'])
          with c3 have "calm_step w3 w'" by (rule calm_step_trans)
          from b13 calm_bal [OF this] have "bal_step w1 w'" by (rule bal_trans)
          then have "safe_step w1 w'" by (rule bal_safe)
          with cb push have "safe_step w w'" by (rule nested_abort)
          then show ?thesis by (simp add: abort(2) x folder_ok_Inl)
        next
          case (go u4 w4)
          from go(1) have pp: "popdir sys ?w3 = Some (Inr ((), w4))" by simp
          from popdir_returns [OF ps3' pp] obtain wq where
            cq: "calm_step ?w3 wq" and pop: "steps wq w4 [Ev_pop_segment]"
            and ps4: "path_stack w4 as ss"
            by blast
          from c3 cq have "calm_step w3 wq" by (rule calm_step_trans)
          from b13 calm_bal [OF this] have b1q: "bal_step w1 wq" by (rule bal_trans)
          from go(2) show ?thesis
          proof (cases rule: then_do_cases)
            case (abort x)
            from current_path_calm [OF abort(1)] have c4: "calm_step w4 (snd x)" by simp
            from nested_stepI [OF cb push b1q pop c4]
            have "bal_step w (snd x)" by (rule nested_bal)
            then have "safe_step w (snd x)" by (rule bal_safe)
            then show ?thesis by (simp add: abort(2) folder_ok_Inl)
          next
            case (go s' w5)
            let ?w5 = "emit (Printf ''CURRENT_PATH after leaving %s is %s\<newline>''
                                     [str_arg (filename file), S s']) w5"
            from go(2) have y: "y = Inr ((), ?w5)" by simp
            from current_path_calm [OF go(1)] have c45: "calm_step w4 w5" by simp
            have c55: "calm_step w5 ?w5" by (rule calm_step_emit) simp
            from c45 c55 have c4: "calm_step w4 ?w5" by (rule calm_step_trans)
            from ps4 c4 have "path_stack ?w5 as ss" by (rule path_stack_calm)
            moreover from cb push b1q pop c4 have "nested_step w ?w5 (filename file)"
              by (rule nested_stepI)
            ultimately show ?thesis unfolding y folder_ok_Inr by (rule conjI)
          qed
        qed
      qed
    qed
  qed
qed

lemma loop_ok:
  assumes V: "\<And>w y as ss leaf. path_stack w as ss \<Longrightarrow>
      dump_files n sys storageid leaf w = Some y \<Longrightarrow> run_ok w y as ss"
  shows "path_stack w as ss \<Longrightarrow>
      dump_files_loop n sys storageid files w = Some y \<Longrightarrow> run_ok w y as ss"
proof (induction files arbitrary: w)
  case Nil
  then have "y = Inr ((), w)" by (simp add: dump_files_loop_Nil)
  with Nil.prems(1) show ?case by (simp add: run_ok_calm calm_step_refl)
next
  case (Cons entry rest)
  show ?case
  proof (cases "filetype entry = LIBMTP_FILETYPE_FOLDER")
    case False
    from Cons.prems(2) [unfolded dump_files_loop_file [OF False]] show ?thesis
    proof (cases rule: then_do_cases)
      case (abort x)
      from dump_files_file_calm [OF abort(1)] have "calm_step w (world_of y)"
        by (simp add: abort(2))
      with Cons.prems(1) show ?thesis by (rule run_ok_calm)
    next
      case (go u w1)
      let ?w1 = "emit (Ev_destroy_file_t (item_id entry)) w1"
      from dump_files_file_calm [OF go(1)] have "calm_step w w1" by simp
      moreover have "calm_step w1 ?w1" by (rule calm_step_emit) simp
      ultimately have c: "calm_step w ?w1" by (rule calm_step_trans)
      then have ps: "path_stack ?w1 as ss" by (rule path_stack_calm [OF Cons.prems(1)])
      from calm_bal [OF c] Cons.IH [OF ps go(2)] show ?thesis by (rule run_ok_after)
    qed
  next
    case True
    from Cons.prems(2) [unfolded dump_files_loop_folder_entry [OF True]] show ?thesis
    proof (cases rule: then_do_cases)
      case (abort x)
      from folder_entry [OF V Cons.prems(1) abort(1)] have "safe_step w (snd x)"
        by (simp add: folder_ok_Inl)
      then show ?thesis by (simp add: abort(2) run_ok_Inl)
    next
      case (go u wA)
      from folder_entry [OF V Cons.prems(1) go(1)]
      have psA: "path_stack wA as ss" and nA: "nested_step w wA (filename entry)"
        by (simp_all add: folder_ok_Inr)
      let ?wA = "emit (Ev_destroy_file_t (item_id entry)) wA"
      have c: "calm_step wA ?wA" by (rule calm_step_emit) simp
      then have ps: "path_stack ?wA as ss" by (rule path_stack_calm [OF psA])
      from nested_bal [OF nA] calm_bal [OF c] have "bal_step w ?wA" by (rule bal_trans)
      from this Cons.IH [OF ps go(2)] show ?thesis by (rule run_ok_after)
    qed
  qed
qed

lemma visit_ok_step:
  assumes L: "\<And>w y as ss files. path_stack w as ss \<Longrightarrow>
      dump_files_loop n sys storageid files w = Some y \<Longrightarrow> run_ok w y as ss"
    and ps: "path_stack w as ss"
    and run: "dump_files (Suc n) sys storageid leaf w = Some y"
  shows "run_ok w y as ss"
proof -
  obtain files e1 where g: "Get_Files_And_Folders sys storageid leaf (env w) = (files, e1)"
    by (cases "Get_Files_And_Folders sys storageid leaf (env w)")
  let ?w1 = "(emit (Ev_Get_Files_And_Folders storageid leaf) w)\<lparr>env := e1\<rparr>"
  have c1: "calm_step w ?w1" by (rule calm_step_call) simp
  then have ps1: "path_stack ?w1 as ss" by (rule path_stack_calm [OF ps])
  show ?thesis
  proof (cases "files = []")
    case True
    let ?w2 = "(emit Ev_Dump_Errorstack ?w1)\<lparr>env := Dump_Errorstack sys (env ?w1)\<rparr>"
    let ?w3 = "(emit Ev_Clear_Errorstack ?w2)\<lparr>env := Clear_Errorstack sys (env ?w2)\<rparr>"
    from run g True have y: "y = Inr ((), ?w3)" by (simp add: dump_files_Suc Let_def)
    have "calm_step ?w1 ?w2" by (rule calm_step_call) simp
    with c1 have "calm_step w ?w2" by (rule calm_step_trans)
    moreover have "calm_step ?w2 ?w3" by (rule calm_step_call) simp
    ultimately have "calm_step w ?w3" by (rule calm_step_trans)
    then have "calm_step w (world_of y)" by (simp only: y world_of_simps)
    with ps show ?thesis by (rule run_ok_calm)
  next
    case False
    with run g have "dump_files_loop n sys storageid files ?w1 = Some y"
      by (simp add: dump_files_Suc Let_def)
    from calm_bal [OF c1] L [OF ps1 this] show ?thesis by (rule run_ok_after)
  qed
qed

lemma visit_ok:
  "path_stack w as ss \<Longrightarrow> dump_files n sys storageid leaf w = Some y \<Longrightarrow> run_ok w y as ss"
proof (induction n arbitrary: w y as ss leaf)
  case 0
  then show ?case by (simp add: dump_files_0)
next
  case (Suc n)
  have L: "\<And>v z bs ts files. path_stack v bs ts \<Longrightarrow>
      dump_files_loop n sys storageid files v = Some z \<Longrightarrow> run_ok v z bs ts"
    by (rule loop_ok [OF Suc.IH])
  from L Suc.prems show ?case by (rule visit_ok_step)
qed

lemma folder_visit_ok:
  assumes "path_stack w as ss" and "dump_files_folder n sys storageid file w = Some y"
  shows "folder_ok w y as ss (filename file)"
  using visit_ok assms by (rule folder_entry)

lemma loop_visit_ok:
  assumes "path_stack w as ss" and "dump_files_loop n sys storageid files w = Some y"
  shows "run_ok w y as ss"
  using visit_ok assms by (rule loop_ok)

lemma returned_final: "returned r = Some a \<Longrightarrow> r = Some (Inr (a, the (final_world r)))"
  by (auto simp: returned_def final_world_def split: option.splits sum.splits)

lemma failure_final: "failure r = Some x \<Longrightarrow> r = Some (Inl (x, the (final_world r)))"
  by (auto simp: failure_def final_world_def split: option.splits sum.splits)

text \<open>
  Claim C5. The stack is empty when the program starts. A call of \<open>dump_files\<close> (with
  any bound on the depth, in any state whose path stack is well formed and holds the
  segments \<open>ss\<close>) that returns leaves the stack as it found it, empty if it was empty,
  and between its start and its return the
  calls of \<open>push_segment\<close> and \<open>pop_segment\<close> are as many and are properly nested. The
  visit of a folder entry that returns calls \<open>push_segment\<close> once with the name of the
  folder on the way in and \<open>pop_segment\<close> once on the way out; what happens in between
  is balanced, and nothing before or after touches the stack.
\<close>

theorem traversal_pairs_push_and_pop:
  assumes "path_stack w as ss"
  shows "path_stack_first (initial_world e) = None \<and> path_stack_last (initial_world e) = None \<and>
         (dump_files n sys storageid leaf w = Some (Inr ((), w')) \<longrightarrow>
           path_stack w' as ss \<and>
           (ss = [] \<longrightarrow> path_stack_first w' = None \<and> path_stack_last w' = None) \<and>
           (\<exists>evs. out w' = out w @ evs \<and> balanced evs \<and> pushes evs = pops evs)) \<and>
         (dump_files_folder n sys storageid file w = Some (Inr ((), w')) \<longrightarrow>
           path_stack w' as ss \<and>
           (\<exists>pre inner post.
              out w' = out w @ pre @ Ev_push_segment (filename file) # inner @ Ev_pop_segment # post \<and>
              calm pre \<and> balanced inner \<and> calm post))"
proof (intro conjI; (rule impI)?)
  show "path_stack_first (initial_world e) = None" by (simp add: initial_world_def)
  show "path_stack_last (initial_world e) = None" by (simp add: initial_world_def)
next
  assume run: "dump_files n sys storageid leaf w = Some (Inr ((), w'))"
  from visit_ok [OF assms run] have g: "good w w' as ss" by (simp add: run_ok_Inr)
  then have ps: "path_stack w' as ss" by (simp add: good_def)
  have e: "ss = [] \<longrightarrow> path_stack_first w' = None \<and> path_stack_last w' = None"
  proof
    assume "ss = []"
    with ps have "as = []" using chain_length [of "heap w'" None as ss]
      by (simp add: path_stack_def)
    with ps show "path_stack_first w' = None \<and> path_stack_last w' = None"
      by (simp add: path_stack_def)
  qed
  from g obtain evs where evs: "out w' = out w @ evs" "balanced evs"
    by (auto simp: good_def bal_step_def steps_def)
  from evs(2) have "pushes evs = pops evs" by (rule balanced_counts)
  with evs have "out w' = out w @ evs \<and> balanced evs \<and> pushes evs = pops evs"
    by (intro conjI)
  then have t: "\<exists>evs. out w' = out w @ evs \<and> balanced evs \<and> pushes evs = pops evs"
    by (rule exI)
  from ps e t show "path_stack w' as ss \<and>
           (ss = [] \<longrightarrow> path_stack_first w' = None \<and> path_stack_last w' = None) \<and>
           (\<exists>evs. out w' = out w @ evs \<and> balanced evs \<and> pushes evs = pops evs)"
    by (intro conjI)
next
  assume run: "dump_files_folder n sys storageid file w = Some (Inr ((), w'))"
  from folder_visit_ok [OF assms run]
  show "path_stack w' as ss \<and>
           (\<exists>pre inner post.
              out w' = out w @ pre @ Ev_push_segment (filename file) # inner @ Ev_pop_segment # post \<and>
              calm pre \<and> balanced inner \<and> calm post)"
    by (simp add: folder_ok_Inr nested_step_def)
qed

theorem traversal_pairs_push_and_pop_witness:
  "returned (dump_files 2 (tree_system quiet_system [example_file]) 0x10001 0xFFFFFFFF
      (initial_world ())) = Some () \<and>
   balanced (trace (dump_files 2 (tree_system quiet_system [example_file]) 0x10001 0xFFFFFFFF
      (initial_world ()))) \<and>
   pushes (trace (dump_files 2 (tree_system quiet_system [example_file]) 0x10001 0xFFFFFFFF
      (initial_world ()))) = 1 \<and>
   pops (trace (dump_files 2 (tree_system quiet_system [example_file]) 0x10001 0xFFFFFFFF
      (initial_world ()))) = 1 \<and>
   (\<exists>w'. final_world (dump_files 2 (tree_system quiet_system [example_file]) 0x10001 0xFFFFFFFF
      (initial_world ())) = Some w' \<and> path_stack_first w' = None \<and> path_stack_last w' = None) \<and>
   (\<exists>pre inner post.
      trace (dump_files_folder 1 (tree_system quiet_system [example_file]) 0x10001 example_folder
        (initial_world ())) =
        pre @ Ev_push_segment (Some ''docs'') # inner @ Ev_pop_segment # post \<and>
      calm pre \<and> balanced inner \<and> calm post)"
proof -
  define S where "S = tree_system quiet_system [example_file]"
  define W where "W = the (final_world (dump_files 2 S 0x10001 0xFFFFFFFF (initial_world ())))"
  define V where "V = the (final_world (dump_files_folder 1 S 0x10001 example_folder (initial_world ())))"
  have r: "returned (dump_files 2 S 0x10001 0xFFFFFFFF (initial_world ())) = Some ()"
    unfolding S_def by code_simp
  then have run: "dump_files 2 S 0x10001 0xFFFFFFFF (initial_world ()) = Some (Inr ((), W))"
    unfolding W_def by (rule returned_final)
  have "returned (dump_files_folder 1 S 0x10001 example_folder (initial_world ())) = Some ()"
    unfolding S_def by code_simp
  then have frun: "dump_files_folder 1 S 0x10001 example_folder (initial_world ()) =
      Some (Inr ((), V))"
    unfolding V_def by (rule returned_final)
  have o: "out (initial_world ()) = []" by (simp add: initial_world_def)
  note t = traversal_pairs_push_and_pop [OF initial_world_stack,
      of _ 2 S "0x10001" "0xFFFFFFFF" "()"]
  from t [of _ W, THEN conjunct2, THEN conjunct2, THEN conjunct1, THEN mp, OF run] o
  have e: "path_stack_first W = None \<and> path_stack_last W = None" and b: "balanced (out W)"
    by auto
  from traversal_pairs_push_and_pop [OF initial_world_stack, of _ 1 S "0x10001" _ "()" V example_folder,
      THEN conjunct2, THEN conjunct2, THEN conjunct2, THEN mp, OF frun] o
  have f: "\<exists>pre inner post.
      out V = pre @ Ev_push_segment (Some ''docs'') # inner @ Ev_pop_segment # post \<and>
      calm pre \<and> balanced inner \<and> calm post"
    by (simp add: example_folder_def)
  have p: "pushes (trace (dump_files 2 S 0x10001 0xFFFFFFFF (initial_world ()))) = 1"
    unfolding S_def by code_simp
  have q: "pops (trace (dump_files 2 S 0x10001 0xFFFFFFFF (initial_world ()))) = 1"
    unfolding S_def by code_simp
  from e have e': "\<exists>w'. final_world (dump_files 2 S 0x10001 0xFFFFFFFF (initial_world ())) = Some w' \<and>
      path_stack_first w' = None \<and> path_stack_last w' = None"
    by (simp add: run)
  from b have b': "balanced (trace (dump_files 2 S 0x10001 0xFFFFFFFF (initial_world ())))"
    by (simp only: run trace_simps)
  from f have f': "\<exists>pre inner post.
      trace (dump_files_folder 1 S 0x10001 example_folder (initial_world ())) =
        pre @ Ev_push_segment (Some ''docs'') # inner @ Ev_pop_segment # post \<and>
      calm pre \<and> balanced inner \<and> calm post"
    by (simp only: frun trace_simps)
  from r b' p q e' f' show ?thesis
    unfolding S_def [symmetric] by (intro conjI)
qed

subsection \<open>Runs that end deep in the tree\<close>

lemma descent_chain:
  assumes g1: "Get_Files_And_Folders sys storageid root (env w) = (d # rest, e1)"
    and ft: "filetype d = LIBMTP_FILETYPE_FOLDER"
    and pd: "pushdir sys (filename d)
        (emit (Printf ''ENTER DIRECTORY:%s\<newline>'' [str_arg (filename d)])
           ((emit (Ev_Get_Files_And_Folders storageid root) w)\<lparr>env := e1\<rparr>)) =
        Some (Inr ((), w1))"
    and cp: "current_path sys w1 = Some (Inr (s, w2))"
    and g2: "Get_Files_And_Folders sys storageid (item_id d) (env w2) = (inner, e2)"
    and ne: "inner \<noteq> []"
  shows "(calls sys)\<^sup>*\<^sup>* (Visit (Suc (Suc n)) storageid root w)
     (Loop n storageid inner
        ((emit (Ev_Get_Files_And_Folders storageid (item_id d))
            (emit (Printf ''CURRENT_PATH after entering %s is %s\<newline>''
                     [str_arg (filename d), S s]) w2))\<lparr>env := e2\<rparr>))"
proof -
  let ?wa = "(emit (Ev_Get_Files_And_Folders storageid root) w)\<lparr>env := e1\<rparr>"
  let ?wd = "emit (Printf ''CURRENT_PATH after entering %s is %s\<newline>''
                     [str_arg (filename d), S s]) w2"
  have s1: "calls sys (Visit (Suc (Suc n)) storageid root w) (Loop (Suc n) storageid (d # rest) ?wa)"
    by (rule calls.listing [OF g1]) simp
  have s2: "calls sys (Loop (Suc n) storageid (d # rest) ?wa) (Visit (Suc n) storageid (item_id d) ?wd)"
    by (rule calls.descend [OF ft pd cp])
  from g2 have g2': "Get_Files_And_Folders sys storageid (item_id d) (env ?wd) = (inner, e2)"
    by (simp add: emit_def)
  have s3: "calls sys (Visit (Suc n) storageid (item_id d) ?wd)
      (Loop n storageid inner ((emit (Ev_Get_Files_And_Folders storageid (item_id d)) ?wd)\<lparr>env := e2\<rparr>))"
    by (rule calls.listing [OF g2' ne])
  from s1 s2 s3 show ?thesis by (meson rtranclp.rtrancl_into_rtrancl rtranclp.rtrancl_refl)
qed

lemma trace_final: "final_world r = Some w \<Longrightarrow> trace r = out w"
  by (auto simp: final_world_def trace_def split: option.splits sum.splits)

theorem stat_failure_is_fatal_witness:
  "failure (should_copy (failing_stat_system 13) example_file (initial_world ())) = Some (Exit 13) \<and>
   failure (should_copy failing_print_system example_file (initial_world 0)) = Some (Exit 5) \<and>
   last (trace (should_copy failing_print_system example_file (initial_world 0))) =
     Printf ''couldn't stat %s (%s) and errno is not ENOENT: %i\<newline>''
       [S ''a.txt'', S ''a.txt'', I 13] \<and>
   failure (dump_files 2 (tree_system (failing_stat_system 13) [example_file, example_file])
      0x10001 0xFFFFFFFF (initial_world ())) = Some (Exit 13) \<and>
   last (trace (dump_files 2 (tree_system (failing_stat_system 13) [example_file, example_file])
      0x10001 0xFFFFFFFF (initial_world ()))) =
     Printf ''couldn't stat %s (%s) and errno is not ENOENT: %i\<newline>''
       [S ''a.txt'', S ''docs/a.txt'', I 13] \<and>
   failure (should_copy (failing_stat_system 13) example_file (nested_world 17)) = Some (Exit 13) \<and>
   exit_status 13 \<noteq> 0"
proof -
  have fn: "filename example_file = Some ''a.txt''" by (simp add: example_file_def)
  have nf: "filetype example_file \<noteq> LIBMTP_FILETYPE_FOLDER" by (simp add: example_file_def)
  have st1: "sys_stat (failing_stat_system 13) ''a.txt'' (env (initial_world ())) = (-1, 0, ())"
    by (simp add: failing_stat_system_def quiet_system_def)
  have er1: "sys_errno (failing_stat_system 13) (sys_fprintf (failing_stat_system 13) ()) = 13"
    by (simp add: failing_stat_system_def)
  have ne1: "sys_errno (failing_stat_system 13) () \<noteq> ENOENT"
    by (simp add: failing_stat_system_def ENOENT_def)
  from stat_failure_is_fatal [OF current_path_initial fn st1 ne1, THEN conjunct1]
  have a: "failure (should_copy (failing_stat_system 13) example_file (initial_world ())) =
      Some (Exit 13)"
    by (simp only: er1)
  have st2: "sys_stat failing_print_system ''a.txt'' (env (initial_world 0)) = (-1, 0, 13)"
    by (simp add: failing_print_system_def)
  have er2: "sys_errno failing_print_system (sys_fprintf failing_print_system 13) = 5"
    "sys_errno failing_print_system 13 = 13"
    by (simp_all add: failing_print_system_def)
  have ne2: "sys_errno failing_print_system 13 \<noteq> ENOENT"
    by (simp add: failing_print_system_def ENOENT_def)
  note t2 = stat_failure_is_fatal [OF current_path_initial fn st2 ne2]
  from t2 [THEN conjunct1]
  have b1: "failure (should_copy failing_print_system example_file (initial_world 0)) = Some (Exit 5)"
    by (simp only: er2)
  from t2 [THEN conjunct2, THEN conjunct1] obtain evs2 where
    "list_all is_print evs2" and
    "final_world (should_copy failing_print_system example_file (initial_world 0)) =
      Some ((initial_world 0)\<lparr>out := out (initial_world (0::int)) @ evs2 @
              [Ev_stat ''a.txt'',
               Printf ''couldn't stat %s (%s) and errno is not ENOENT: %i\<newline>''
                 [S ''a.txt'', S ([] @ ''a.txt''), I (sys_errno failing_print_system 13)]],
            env := sys_fprintf failing_print_system 13\<rparr>)"
    by (elim exE conjE)
  from trace_final [OF this(2)]
  have b2: "last (trace (should_copy failing_print_system example_file (initial_world 0))) =
     Printf ''couldn't stat %s (%s) and errno is not ENOENT: %i\<newline>''
       [S ''a.txt'', S ''a.txt'', I 13]"
    by (simp add: er2)
  define T where "T = tree_system (failing_stat_system 13) [example_file, example_file]"
  let ?wa = "(emit (Ev_Get_Files_And_Folders 0x10001 0xFFFFFFFF) (initial_world ()))\<lparr>env := ()\<rparr>"
  let ?P = "pushdir T (filename example_folder)
        (emit (Printf ''ENTER DIRECTORY:%s\<newline>'' [str_arg (filename example_folder)]) ?wa)"
  let ?w1 = "the (final_world ?P)"
  let ?w2 = "the (final_world (current_path T ?w1))"
  let ?v = "(emit (Ev_Get_Files_And_Folders 0x10001 (item_id example_folder))
            (emit (Printf ''CURRENT_PATH after entering %s is %s\<newline>''
                     [str_arg (filename example_folder), S ''docs/'']) ?w2))\<lparr>env := ()\<rparr>"
  let ?w = "dump_fileinfo T example_file ?v"
  have g1: "Get_Files_And_Folders T 0x10001 0xFFFFFFFF (env (initial_world ())) =
      (example_folder # [example_file], ())"
    by (simp add: T_def tree_system_def)
  have ft: "filetype example_folder = LIBMTP_FILETYPE_FOLDER" by (simp add: example_folder_def)
  have "returned ?P = Some ()" unfolding T_def by code_simp
  then have pd: "?P = Some (Inr ((), ?w1))" by (rule returned_final)
  have "returned (current_path T ?w1) = Some ''docs/''" unfolding T_def by code_simp
  then have cp: "current_path T ?w1 = Some (Inr (''docs/'', ?w2))" by (rule returned_final)
  have g2: "Get_Files_And_Folders T 0x10001 (item_id example_folder) (env ?w2) =
      ([example_file, example_file], ())"
    by (simp add: T_def tree_system_def example_folder_def)
  have ch: "(calls T)\<^sup>*\<^sup>* (Visit (Suc (Suc 0)) 0x10001 0xFFFFFFFF (initial_world ()))
      (Loop 0 0x10001 (example_file # [example_file]) ?v)"
    by (rule descent_chain [OF g1 ft pd cp g2]) simp
  have cw: "returned (current_path T ?w) = Some ''docs/''"
    unfolding T_def by code_simp
  have st3: "sys_stat T ''a.txt'' (env ?w) = (-1, 0, ())"
    by (simp add: T_def tree_system_def failing_stat_system_def quiet_system_def)
  have er3: "sys_errno T (sys_fprintf T ()) = 13" "sys_errno T () = 13"
    by (simp_all add: T_def tree_system_def failing_stat_system_def)
  have ne3: "sys_errno T () \<noteq> ENOENT"
    by (simp add: er3 ENOENT_def)
  note t3 = stat_failure_is_fatal [OF cw fn st3 ne3]
  from t3 [THEN conjunct2, THEN conjunct2, THEN conjunct1, THEN mp, OF conjI [OF nf conjI [OF refl ch]]]
  have o: "failure (outcome T (Visit (Suc (Suc 0)) 0x10001 0xFFFFFFFF (initial_world ()))) =
      Some (Exit 13)"
    and fw: "final_world (outcome T (Visit (Suc (Suc 0)) 0x10001 0xFFFFFFFF (initial_world ()))) =
      final_world (should_copy T example_file ?w)"
    by (simp_all only: er3)
  have two: "dump_files 2 T 0x10001 0xFFFFFFFF (initial_world ()) =
      outcome T (Visit (Suc (Suc 0)) 0x10001 0xFFFFFFFF (initial_world ()))"
    by (simp add: numeral_2_eq_2)
  from o have c1: "failure (dump_files 2 T 0x10001 0xFFFFFFFF (initial_world ())) = Some (Exit 13)"
    by (simp only: two)
  from t3 [THEN conjunct2, THEN conjunct1] obtain evs3 where
    "list_all is_print evs3" and
    "final_world (should_copy T example_file ?w) =
      Some (?w\<lparr>out := out ?w @ evs3 @
              [Ev_stat ''a.txt'',
               Printf ''couldn't stat %s (%s) and errno is not ENOENT: %i\<newline>''
                 [S ''a.txt'', S (''docs/'' @ ''a.txt''), I (sys_errno T ())]],
            env := sys_fprintf T ()\<rparr>)"
    by (elim exE conjE)
  with fw have f3: "final_world (dump_files 2 T 0x10001 0xFFFFFFFF (initial_world ())) =
      Some (?w\<lparr>out := out ?w @ evs3 @
              [Ev_stat ''a.txt'',
               Printf ''couldn't stat %s (%s) and errno is not ENOENT: %i\<newline>''
                 [S ''a.txt'', S (''docs/'' @ ''a.txt''), I (sys_errno T ())]],
            env := sys_fprintf T ()\<rparr>)"
    by (simp only: two)
  from trace_final [OF f3]
  have c2: "last (trace (dump_files 2 T 0x10001 0xFFFFFFFF (initial_world ()))) =
     Printf ''couldn't stat %s (%s) and errno is not ENOENT: %i\<newline>''
       [S ''a.txt'', S ''docs/a.txt'', I 13]"
    by (simp add: er3)
  have pm: "PATH_MAX (failing_stat_system 13) = 4096"
    by (simp add: failing_stat_system_def quiet_system_def)
  have st4: "sys_stat (failing_stat_system 13) ''a.txt'' (env (nested_world 17)) = (-1, 0, ())"
    by (simp add: failing_stat_system_def quiet_system_def)
  from stat_failure_is_fatal [OF current_path_nested_17 [OF pm] fn st4 ne1, THEN conjunct1]
  have e: "failure (should_copy (failing_stat_system 13) example_file (nested_world 17)) =
      Some (Exit 13)"
    by (simp only: er1)
  have d: "exit_status 13 \<noteq> 0" by (simp add: exit_status_def)
  from a b1 b2 c1 c2 e d show ?thesis unfolding T_def by (intro conjI)
qed

theorem folder_creation_failure_is_fatal_witness:
  "dump_files_loop 0 (failing_mkdir_system 13) 0x10001 [example_folder, example_file]
      (initial_world ()) =
     Some (Inl (Exit 1,
       (initial_world ())\<lparr>out :=
          [Printf ''ENTER DIRECTORY:%s\<newline>'' [S ''docs''],
           Ev_mkdir (Some ''docs''),
           Printf ''couldn't mkdir %s, errno: %i\<newline>'' [S ''docs'', I 13]]\<rparr>)) \<and>
   dump_files_loop 0 (failing_chdir_system 13) 0x10001 [example_folder, example_file]
      (initial_world ()) =
     Some (Inl (Exit 1,
       (initial_world ())\<lparr>out :=
          [Printf ''ENTER DIRECTORY:%s\<newline>'' [S ''docs''],
           Ev_mkdir (Some ''docs''), Ev_chdir (Some ''docs''),
           Printf ''couldn't chdir %s, errno: %i\<newline>'' [S ''docs'', I 13]]\<rparr>)) \<and>
   pushdir existing_dir_system (Some ''docs'')
       (emit (Printf ''ENTER DIRECTORY:%s\<newline>'' [S ''docs'']) (initial_world ())) =
     push_segment (Some ''docs'')
       ((initial_world ())\<lparr>out :=
          [Printf ''ENTER DIRECTORY:%s\<newline>'' [S ''docs''],
           Ev_mkdir (Some ''docs''), Ev_chdir (Some ''docs'')]\<rparr>) \<and>
   failure (dump_files 2 (tree_system locked_folder_system [private_folder, example_file])
      0x10001 0xFFFFFFFF (initial_world ())) = Some (Exit 1) \<and>
   last (trace (dump_files 2 (tree_system locked_folder_system [private_folder, example_file])
      0x10001 0xFFFFFFFF (initial_world ()))) =
     Printf ''couldn't mkdir %s, errno: %i\<newline>'' [S ''private'', I 13]"
proof -
  have ft: "filetype example_folder = LIBMTP_FILETYPE_FOLDER"
    and fn: "filename example_folder = Some ''docs''"
    by (simp_all add: example_folder_def)
  have m1: "sys_mkdir (failing_mkdir_system 13) (filename example_folder) (env (initial_world ())) = (-1, ())"
    and c1: "sys_chdir (failing_mkdir_system 13) (filename example_folder) () = (0, ())"
    and e1: "sys_errno (failing_mkdir_system 13) () = 13"
    by (simp_all add: failing_mkdir_system_def quiet_system_def)
  have m2: "sys_mkdir (failing_chdir_system 13) (filename example_folder) (env (initial_world ())) = (0, ())"
    and c2: "sys_chdir (failing_chdir_system 13) (filename example_folder) () = (-1, ())"
    and e2: "sys_errno (failing_chdir_system 13) () = 13"
    by (simp_all add: failing_chdir_system_def quiet_system_def)
  have m3: "sys_mkdir existing_dir_system (filename example_folder) (env (initial_world ())) = (-1, ())"
    and c3: "sys_chdir existing_dir_system (filename example_folder) () = (0, ())"
    and e3: "sys_errno existing_dir_system () = EEXIST"
    by (simp_all add: existing_dir_system_def quiet_system_def)
  have o: "out (initial_world ()) = []" by (simp add: initial_world_def)
  have u: "(initial_world ())\<lparr>out := x, env := ()\<rparr> = (initial_world ())\<lparr>out := x\<rparr>" for x
    by simp
  have r: "(calls sys)\<^sup>*\<^sup>* (Loop 0 0x10001 (example_folder # [example_file]) (initial_world ()))
      (Loop 0 0x10001 (example_folder # [example_file]) (initial_world ()))" for sys :: "unit system"
    by (rule rtranclp.rtrancl_refl)
  from folder_creation_failure_is_fatal [OF ft m1 c1 r]
  have a: "dump_files_loop 0 (failing_mkdir_system 13) 0x10001 [example_folder, example_file]
      (initial_world ()) =
     Some (Inl (Exit 1,
       (initial_world ())\<lparr>out :=
          [Printf ''ENTER DIRECTORY:%s\<newline>'' [S ''docs''],
           Ev_mkdir (Some ''docs''),
           Printf ''couldn't mkdir %s, errno: %i\<newline>'' [S ''docs'', I 13]]\<rparr>))"
    by (simp add: e1 fn o EEXIST_def str_arg_def)
  from folder_creation_failure_is_fatal [OF ft m2 c2 r]
  have b: "dump_files_loop 0 (failing_chdir_system 13) 0x10001 [example_folder, example_file]
      (initial_world ()) =
     Some (Inl (Exit 1,
       (initial_world ())\<lparr>out :=
          [Printf ''ENTER DIRECTORY:%s\<newline>'' [S ''docs''],
           Ev_mkdir (Some ''docs''), Ev_chdir (Some ''docs''),
           Printf ''couldn't chdir %s, errno: %i\<newline>'' [S ''docs'', I 13]]\<rparr>))"
    by (simp add: e2 fn o str_arg_def)
  from folder_creation_failure_is_fatal [OF ft m3 c3 r]
  have c: "pushdir existing_dir_system (Some ''docs'')
       (emit (Printf ''ENTER DIRECTORY:%s\<newline>'' [S ''docs'']) (initial_world ())) =
     push_segment (Some ''docs'')
       ((initial_world ())\<lparr>out :=
          [Printf ''ENTER DIRECTORY:%s\<newline>'' [S ''docs''],
           Ev_mkdir (Some ''docs''), Ev_chdir (Some ''docs'')]\<rparr>)"
    by (simp add: e3 fn o u str_arg_def)
  define T where "T = tree_system locked_folder_system [private_folder, example_file]"
  let ?wa = "(emit (Ev_Get_Files_And_Folders 0x10001 0xFFFFFFFF) (initial_world ()))\<lparr>env := ()\<rparr>"
  let ?P = "pushdir T (filename example_folder)
        (emit (Printf ''ENTER DIRECTORY:%s\<newline>'' [str_arg (filename example_folder)]) ?wa)"
  let ?w1 = "the (final_world ?P)"
  let ?w2 = "the (final_world (current_path T ?w1))"
  let ?v = "(emit (Ev_Get_Files_And_Folders 0x10001 (item_id example_folder))
            (emit (Printf ''CURRENT_PATH after entering %s is %s\<newline>''
                     [str_arg (filename example_folder), S ''docs/'']) ?w2))\<lparr>env := ()\<rparr>"
  have g1: "Get_Files_And_Folders T 0x10001 0xFFFFFFFF (env (initial_world ())) =
      (example_folder # [example_file], ())"
    by (simp add: T_def tree_system_def)
  have "returned ?P = Some ()" unfolding T_def by code_simp
  then have pd: "?P = Some (Inr ((), ?w1))" by (rule returned_final)
  have "returned (current_path T ?w1) = Some ''docs/''" unfolding T_def by code_simp
  then have cp: "current_path T ?w1 = Some (Inr (''docs/'', ?w2))" by (rule returned_final)
  have g2: "Get_Files_And_Folders T 0x10001 (item_id example_folder) (env ?w2) =
      ([private_folder, example_file], ())"
    by (simp add: T_def tree_system_def example_folder_def)
  have ch: "(calls T)\<^sup>*\<^sup>* (Visit (Suc (Suc 0)) 0x10001 0xFFFFFFFF (initial_world ()))
      (Loop 0 0x10001 (private_folder # [example_file]) ?v)"
    by (rule descent_chain [OF g1 ft pd cp g2]) simp
  have ft4: "filetype private_folder = LIBMTP_FILETYPE_FOLDER"
    and fn4: "filename private_folder = Some ''private''"
    by (simp_all add: private_folder_def)
  have m4: "sys_mkdir T (filename private_folder) (env ?v) = (-1, ())"
    and c4: "sys_chdir T (filename private_folder) () = (0, ())"
    and e4: "sys_errno T () = 13"
    by (simp_all add: T_def tree_system_def locked_folder_system_def quiet_system_def fn4)
  have two: "dump_files 2 T 0x10001 0xFFFFFFFF (initial_world ()) =
      outcome T (Visit (Suc (Suc 0)) 0x10001 0xFFFFFFFF (initial_world ()))"
    by (simp add: numeral_2_eq_2)
  from folder_creation_failure_is_fatal [OF ft4 m4 c4 ch, THEN conjunct1]
  have d: "dump_files 2 T 0x10001 0xFFFFFFFF (initial_world ()) =
      Some (Inl (Exit 1,
               ?v\<lparr>out := out ?v @
                    [Printf ''ENTER DIRECTORY:%s\<newline>'' [str_arg (filename private_folder)],
                     Ev_mkdir (filename private_folder),
                     Printf ''couldn't mkdir %s, errno: %i\<newline>''
                       [str_arg (filename private_folder), I (sys_errno T ())]],
                 env := ()\<rparr>))"
    by (simp add: two e4 EEXIST_def)
  have d1: "failure (dump_files 2 T 0x10001 0xFFFFFFFF (initial_world ())) = Some (Exit 1)"
    by (simp add: d)
  have d2: "last (trace (dump_files 2 T 0x10001 0xFFFFFFFF (initial_world ()))) =
     Printf ''couldn't mkdir %s, errno: %i\<newline>'' [S ''private'', I 13]"
    by (simp add: d e4 fn4 str_arg_def)
  from a b c d1 d2 show ?thesis unfolding T_def by (intro conjI)
qed

text \<open>
  Claim C6, as amended. \<open>pop_segment\<close> has no test for the empty stack: called when
  \<open>path_stack_last\<close> is \<open>NULL\<close> it dereferences \<open>NULL\<close> in \<open>path_stack_last->prev\<close>; the
  call does not return, prints nothing and raises no error of its own. The traversal
  never makes such a call: in every run of \<open>dump_files\<close> that starts with a well formed
  stack, however the run ends, each call of \<open>pop_segment\<close> comes after a call of
  \<open>push_segment\<close> of the same run that no earlier call of \<open>pop_segment\<close> has matched.
\<close>

theorem pop_segment_on_empty_stack:
  "(path_stack_last w = None \<longrightarrow>
      pop_segment w = Some (Inl (NullDeref, emit Ev_pop_segment w)) \<and>
      returned (pop_segment w) = None \<and>
      trace (pop_segment w) = out w @ [Ev_pop_segment]) \<and>
   (path_stack v as ss \<and> dump_files n sys storageid leaf v = Some y \<longrightarrow>
      (\<exists>evs. out (world_of y) = out v @ evs \<and> pops_after_push evs))"
proof (rule conjI; rule impI)
  assume "path_stack_last w = None"
  then show "pop_segment w = Some (Inl (NullDeref, emit Ev_pop_segment w)) \<and>
      returned (pop_segment w) = None \<and>
      trace (pop_segment w) = out w @ [Ev_pop_segment]"
    by (simp add: pop_segment_empty) (simp add: emit_def)
next
  assume h: "path_stack v as ss \<and> dump_files n sys storageid leaf v = Some y"
  from visit_ok [OF h [THEN conjunct1] h [THEN conjunct2]] have "safe_step v (world_of y)"
    by (cases y) (auto simp: run_ok_def good_def bal_safe)
  then show "\<exists>evs. out (world_of y) = out v @ evs \<and> pops_after_push evs"
    by (simp add: safe_step_def steps_def)
qed

theorem pop_segment_on_empty_stack_witness:
  "pop_segment (initial_world ()) = Some (Inl (NullDeref, emit Ev_pop_segment (initial_world ()))) \<and>
   returned (pop_segment (initial_world ())) = None \<and>
   pops_after_push (trace (dump_files 2 (tree_system quiet_system [example_file])
      0x10001 0xFFFFFFFF (initial_world ()))) \<and>
   failure (dump_files 2 (tree_system (failing_stat_system 13) [example_file])
      0x10001 0xFFFFFFFF (initial_world ())) = Some (Exit 13) \<and>
   pops_after_push (trace (dump_files 2 (tree_system (failing_stat_system 13) [example_file])
      0x10001 0xFFFFFFFF (initial_world ())))"
proof -
  have l: "path_stack_last (initial_world ()) = None" by (simp add: initial_world_def)
  have o: "out (initial_world ()) = []" by (simp add: initial_world_def)
  note t = pop_segment_on_empty_stack [of "initial_world ()" "initial_world ()" "[]" "[]"]
  note p = t [THEN conjunct1, THEN mp, OF l]
  from p [THEN conjunct1]
  have a: "pop_segment (initial_world ()) =
      Some (Inl (NullDeref, emit Ev_pop_segment (initial_world ())))" .
  from p [THEN conjunct2, THEN conjunct1]
  have b: "returned (pop_segment (initial_world ())) = None" .
  define S where "S = tree_system quiet_system [example_file]"
  define T where "T = tree_system (failing_stat_system 13) [example_file]"
  define W where "W = the (final_world (dump_files 2 S 0x10001 0xFFFFFFFF (initial_world ())))"
  define V where "V = the (final_world (dump_files 2 T 0x10001 0xFFFFFFFF (initial_world ())))"
  have "returned (dump_files 2 S 0x10001 0xFFFFFFFF (initial_world ())) = Some ()"
    unfolding S_def by code_simp
  then have r1: "dump_files 2 S 0x10001 0xFFFFFFFF (initial_world ()) = Some (Inr ((), W))"
    unfolding W_def by (rule returned_final)
  have f2: "failure (dump_files 2 T 0x10001 0xFFFFFFFF (initial_world ())) = Some (Exit 13)"
    unfolding T_def by code_simp
  then have r2: "dump_files 2 T 0x10001 0xFFFFFFFF (initial_world ()) = Some (Inl (Exit 13, V))"
    unfolding V_def by (rule failure_final)
  from t [of 2 S "0x10001" "0xFFFFFFFF" "Inr ((), W)", THEN conjunct2, THEN mp,
      OF conjI [OF initial_world_stack r1]]
  have c: "pops_after_push (trace (dump_files 2 S 0x10001 0xFFFFFFFF (initial_world ())))"
    by (simp add: o r1)
  from t [of 2 T "0x10001" "0xFFFFFFFF" "Inl (Exit 13, V)", THEN conjunct2, THEN mp,
      OF conjI [OF initial_world_stack r2]]
  have d: "pops_after_push (trace (dump_files 2 T 0x10001 0xFFFFFFFF (initial_world ())))"
    by (simp add: o r2)
  from a b c f2 d show ?thesis unfolding S_def T_def by (intro conjI)
qed

text \<open>
  Claim C6 as stated fails: on the empty stack at the start the call neither exits nor
  prints a message such as \<open>pop with empty stack\<close>; it ends in the \<open>NULL\<close>
  dereference.
\<close>

theorem pop_segment_no_logic_error_counterexample:
  "failure (pop_segment (initial_world ())) = Some NullDeref \<and>
   failure (pop_segment (initial_world ())) \<noteq> Some (Exit 1) \<and>
   trace (pop_segment (initial_world ())) = [Ev_pop_segment]"
proof -
  have l: "path_stack_last (initial_world ()) = None" by (simp add: initial_world_def)
  have "pop_segment (initial_world ()) =
      Some (Inl (NullDeref, emit Ev_pop_segment (initial_world ())))"
    by (rule pop_segment_empty [OF l])
  then show ?thesis by (simp add: emit_def initial_world_def)
qed

theorem listing_clears_error_stack_when_empty_witness:
  "dump_files (Suc 0) quiet_system 0x10001 0xFFFFFFFF (initial_world ()) =
     Some (Inr ((),
       (initial_world ())\<lparr>out := [Ev_Get_Files_And_Folders 0x10001 0xFFFFFFFF,
                                   Ev_Dump_Errorstack, Ev_Clear_Errorstack]\<rparr>)) \<and>
   dump_files (Suc 0) one_file_system 0x10001 0xFFFFFFFF (initial_world ()) =
     dump_files_loop 0 one_file_system 0x10001 [example_file]
       ((initial_world ())\<lparr>out := [Ev_Get_Files_And_Folders 0x10001 0xFFFFFFFF]\<rparr>)"
proof -
  have g: "Get_Files_And_Folders quiet_system 0x10001 0xFFFFFFFF (env (initial_world ())) = ([], ())"
    by (simp add: quiet_system_def)
  have h: "Get_Files_And_Folders one_file_system 0x10001 0xFFFFFFFF (env (initial_world ())) =
      ([example_file], ())"
    by (simp add: one_file_system_def)
  from listing_clears_error_stack_when_empty [OF g, of 0]
  have a: "dump_files (Suc 0) quiet_system 0x10001 0xFFFFFFFF (initial_world ()) =
     Some (Inr ((),
       (initial_world ())\<lparr>out := [Ev_Get_Files_And_Folders 0x10001 0xFFFFFFFF,
                                   Ev_Dump_Errorstack, Ev_Clear_Errorstack]\<rparr>))"
    by (simp add: initial_world_def)
  from listing_clears_error_stack_when_empty [OF h, of 0]
  have b: "dump_files (Suc 0) one_file_system 0x10001 0xFFFFFFFF (initial_world ()) =
     dump_files_loop 0 one_file_system 0x10001 [example_file]
       ((initial_world ())\<lparr>out := [Ev_Get_Files_And_Folders 0x10001 0xFFFFFFFF]\<rparr>)"
    by (simp add: initial_world_def)
  from a b show ?thesis by (rule conjI)
qed

text \<open>
  Claim C7 as stated fails: when the device lists the one file \<open>a.txt\<close> in its root
  folder, the visit processes the file and returns, and neither
  \<open>LIBMTP_Dump_Errorstack\<close> nor \<open>LIBMTP_Clear_Errorstack\<close> is called.
\<close>

theorem listing_not_cleared_counterexample:
  "returned (dump_files 1 one_file_system 0x10001 0xFFFFFFFF (initial_world ())) = Some () \<and>
   Ev_Get_Files_And_Folders 0x10001 0xFFFFFFFF \<in>
     set (trace (dump_files 1 one_file_system 0x10001 0xFFFFFFFF (initial_world ()))) \<and>
   Ev_Dump_Errorstack \<notin>
     set (trace (dump_files 1 one_file_system 0x10001 0xFFFFFFFF (initial_world ()))) \<and>
   Ev_Clear_Errorstack \<notin>
     set (trace (dump_files 1 one_file_system 0x10001 0xFFFFFFFF (initial_world ())))"
  by code_simp

end
